theory Spec2Isabelle
  imports Main "HOL-Library.AList"
begin

section \<open>Values, dictionaries and diagnostics\<close>

text \<open>
  A Python \<open>str\<close> is a sequence of Unicode code points; \<open>str\<close> turns an ASCII
  literal into one.
\<close>

type_synonym pystr = "nat list"

definition str :: "string \<Rightarrow> pystr" where
  "str s = map of_char s"

text \<open>
  The argument values of \<open>add_item\<close>, \<open>remove_item\<close> and \<open>get_qty\<close>:
  \<open>None\<close>, booleans, unbounded integers, strings and lists (the unhashable case).
  Floating-point arguments are not part of the model.
\<close>

datatype pyval =
    PNone
  | PBool bool
  | PInt int
  | PStr pystr
  | PList "pyval list"

datatype py_error =
  KeyError | TypeError | ValueError | FileNotFoundError | JSONDecodeError | RecursionError

text \<open>
  A call that works on an object in place either returns (\<open>Inr x\<close>, the object being
  \<open>x\<close>) or raises (\<open>Inl (e, x)\<close>: the exception \<open>e\<close>, and the object as the call
  leaves it). \<open>after\<close> is the object afterwards in both cases.
\<close>

type_synonym 'a outcome = "(py_error \<times> 'a) + 'a"


text \<open>
  Integers are unbounded, but the interpreter converts between \<open>int\<close> and decimal
  text only up to \<open>sys.int_info.default_max_str_digits = 4300\<close> digits (the sign is
  not counted); beyond, \<open>str\<close>, \<open>repr\<close>, an f-string and \<open>int\<close> raise
  \<open>ValueError\<close>. \<open>digits_of\<close> are the decimal digits, most significant first.
\<close>

fun digits_of :: "nat \<Rightarrow> pystr" where
  "digits_of n = (if n < 10 then [48 + n] else digits_of (n div 10) @ [48 + n mod 10])"

definition max_str_digits :: nat where
  "max_str_digits = 4300"

definition int_str_ok :: "int \<Rightarrow> bool" where
  "int_str_ok i = (length (digits_of (nat \<bar>i\<bar>)) \<le> max_str_digits)"

text \<open>The least integer with more than 4300 digits.\<close>

definition huge :: int where
  "huge = 10 ^ max_str_digits"

text \<open>Whether \<open>str(v)\<close> returns: it raises for an integer that is too long, also inside a list.\<close>

fun str_ok :: "pyval \<Rightarrow> bool" where
  "str_ok (PInt i) = int_str_ok i"
| "str_ok (PList xs) = list_all str_ok xs"
| "str_ok v = True"

text \<open>
  The stock mapping: a \<open>dict\<close> from \<open>str\<close> to \<open>int\<close>, in insertion order.
  \<open>AList.update\<close> overwrites in place or appends, \<open>AList.delete\<close> removes the key,
  \<open>map_of\<close> is the lookup: this is what \<open>d[k] = v\<close>, \<open>del d[k]\<close> and \<open>d[k]\<close>
  do to a Python dictionary.
\<close>

type_synonym stock = "(pystr \<times> int) list"

text \<open>The records sent to the \<open>logging\<close> sink, by level and call site.\<close>

datatype level = INFO | WARNING | ERROR

datatype event =
    Invalid_types
  | Added
  | Remove_missing
  | Remove_bad_quantity
  | File_not_found
  | Decode_failed
  | Saved

type_synonym log_record = "level \<times> event"

text \<open>\<open>isinstance(x, str)\<close> and \<open>isinstance(x, int)\<close>; \<open>bool\<close> is a subclass of \<open>int\<close>.\<close>

fun isinstance_str :: "pyval \<Rightarrow> bool" where
  "isinstance_str (PStr s) = True"
| "isinstance_str v = False"

fun isinstance_int :: "pyval \<Rightarrow> bool" where
  "isinstance_int (PInt n) = True"
| "isinstance_int (PBool b) = True"
| "isinstance_int v = False"

text \<open>\<open>n + v\<close> and \<open>n - v\<close> for an \<open>int\<close> \<open>n\<close>: \<open>True\<close> counts as 1, \<open>False\<close> as 0.\<close>

fun py_add :: "int \<Rightarrow> pyval \<Rightarrow> py_error + int" where
  "py_add n (PInt q) = Inr (n + q)"
| "py_add n (PBool b) = Inr (n + (if b then 1 else 0))"
| "py_add n v = Inl TypeError"

fun py_sub :: "int \<Rightarrow> pyval \<Rightarrow> py_error + int" where
  "py_sub n (PInt q) = Inr (n - q)"
| "py_sub n (PBool b) = Inr (n - (if b then 1 else 0))"
| "py_sub n v = Inl TypeError"

text \<open>\<open>d.get(k, default)\<close> for a \<open>str\<close> key.\<close>

definition dict_get :: "stock \<Rightarrow> pystr \<Rightarrow> int \<Rightarrow> int" where
  "dict_get d k dflt = (case map_of d k of None \<Rightarrow> dflt | Some v \<Rightarrow> v)"

section \<open>The inventory operations\<close>

text \<open>
  \<open>add_item(stock_data, item, qty)\<close>. Every operation gives its outcome and the
  records it logs; the \<open>logging\<close> calls themselves never raise. The second equation
  is the case \<open>not isinstance(item, str)\<close>. After the store of line 29, line 30
  builds the entry for the \<open>logs\<close> list with an f-string: \<open>{qty}\<close> raises
  \<open>ValueError\<close> for an integer of more than 4300 digits, with the quantity already
  stored and nothing logged. The entry itself bears the wall clock and is not kept.
\<close>

fun add_item :: "stock \<Rightarrow> pyval \<Rightarrow> pyval \<Rightarrow> stock outcome \<times> log_record list" where
  "add_item d (PStr k) qty =
     (if \<not> isinstance_int qty then (Inr d, [(WARNING, Invalid_types)])
      else (case py_add (dict_get d k 0) qty of
              Inl e \<Rightarrow> (Inl (e, d), [])
            | Inr v \<Rightarrow>
                (let d' = AList.update k v d
                 in if \<not> str_ok qty then (Inl (ValueError, d'), [])
                    else (Inr d', [(INFO, Added)]))))"
| "add_item d item qty = (Inr d, [(WARNING, Invalid_types)])"

text \<open>
  The body of the \<open>try\<close> in \<open>remove_item\<close>: \<open>stock_data[item]\<close> is read first
  (\<open>KeyError\<close> for a missing key, \<open>TypeError\<close> for an unhashable one), then the
  difference is computed and stored, then the key is deleted when the stored value is
  \<open>\<le> 0\<close>. A dictionary with \<open>str\<close> keys holds no key equal to \<open>None\<close>, a
  boolean or an integer.
\<close>

fun remove_try :: "stock \<Rightarrow> pyval \<Rightarrow> pyval \<Rightarrow> py_error + stock" where
  "remove_try d (PStr k) qty =
     (case map_of d k of
        None \<Rightarrow> Inl KeyError
      | Some v \<Rightarrow>
          (case py_sub v qty of
             Inl e \<Rightarrow> Inl e
           | Inr v' \<Rightarrow>
               (let d' = AList.update k v' d
                in if v' \<le> 0 then Inr (AList.delete k d') else Inr d')))"
| "remove_try d (PList xs) qty = Inl TypeError"
| "remove_try d item qty = Inl KeyError"

definition remove_item :: "stock \<Rightarrow> pyval \<Rightarrow> pyval \<Rightarrow> stock outcome \<times> log_record list" where
  "remove_item d item qty =
     (case remove_try d item qty of
        Inr d' \<Rightarrow> (Inr d', [])
      | Inl KeyError \<Rightarrow> (Inr d, [(ERROR, Remove_missing)])
      | Inl TypeError \<Rightarrow> (Inr d, [(ERROR, Remove_bad_quantity)])
      | Inl e \<Rightarrow> (Inl (e, d), []))"

text \<open>\<open>get_qty\<close>: \<open>stock_data.get(item, 0)\<close>, which hashes the key.\<close>

fun get_qty :: "stock \<Rightarrow> pyval \<Rightarrow> py_error + int" where
  "get_qty d (PStr k) = Inr (dict_get d k 0)"
| "get_qty d (PList xs) = Inl TypeError"
| "get_qty d item = Inr 0"

text \<open>\<open>hash(item)\<close> returns: a list is unhashable.\<close>

fun hashable :: "pyval \<Rightarrow> bool" where
  "hashable (PList xs) = False"
| "hashable v = True"







section \<open>The persisted snapshot: the \<open>json\<close> codec\<close>

text \<open>
  \<open>save_data\<close> and \<open>load_data\<close> call \<open>json.dump\<close> and \<open>json.load\<close> of the
  Python standard library. The codec is modelled after the library's reference
  implementation (\<open>json/encoder.py\<close>, \<open>json/decoder.py\<close>, \<open>json/scanner.py\<close>),
  with the default options and \<open>indent=4\<close>. Input and output are sequences of
  code points; a value with a fraction or an exponent keeps its lexeme, its
  floating-point value is not computed.
\<close>

datatype json =
    JNull
  | JBool bool
  | JInt int
  | JFloat pystr
  | JStr pystr
  | JArray "json list"
  | JObject "(pystr \<times> json) list"

subsection \<open>Encoding\<close>

text \<open>
  \<open>int.__repr__\<close>: \<open>ValueError\<close> for more than 4300 digits, else the decimal digits
  (\<open>int_repr\<close>), with \<open>-\<close> for a negative number.
\<close>

definition int_repr :: "int \<Rightarrow> pystr" where
  "int_repr i = (if i < 0 then 45 # digits_of (nat (- i)) else digits_of (nat i))"

definition intstr :: "int \<Rightarrow> py_error + pystr" where
  "intstr i = (if int_str_ok i then Inr (int_repr i) else Inl ValueError)"

text \<open>\<open>'{0:04x}'.format(n)\<close> for \<open>n < 0x10000\<close>: four lower-case hexadecimal digits.\<close>

definition hex_digit :: "nat \<Rightarrow> nat" where
  "hex_digit d = (if d < 10 then 48 + d else 87 + d)"

definition hex4 :: "nat \<Rightarrow> pystr" where
  "hex4 n = [hex_digit (n div 4096 mod 16), hex_digit (n div 256 mod 16),
             hex_digit (n div 16 mod 16), hex_digit (n mod 16)]"

text \<open>
  The replacement of \<open>py_encode_basestring_ascii\<close>: \<open>ESCAPE_ASCII\<close> matches a
  backslash, a double quote and every character outside \<open>' '\<close>..\<open>'~'\<close>;
  \<open>ESCAPE_DCT\<close> has the short escapes, everything else becomes \<open>\uXXXX\<close>, as a
  surrogate pair from \<open>0x10000\<close> on (\<open>n >> 10\<close> is \<open>n div 1024\<close>, \<open>n & 0x3ff\<close> is
  \<open>n mod 1024\<close>, and \<open>|\<close> adds, the operands sharing no bit).
\<close>

definition escape_char :: "nat \<Rightarrow> pystr" where
  "escape_char c =
     (if c = 92 then [92, 92]
      else if c = 34 then [92, 34]
      else if c = 8 then [92, 98]
      else if c = 12 then [92, 102]
      else if c = 10 then [92, 110]
      else if c = 13 then [92, 114]
      else if c = 9 then [92, 116]
      else if 32 \<le> c \<and> c \<le> 126 then [c]
      else if c < 65536 then 92 # 117 # hex4 c
      else (let n = c - 65536;
                s1 = 55296 + (n div 1024) mod 1024;
                s2 = 56320 + n mod 1024
            in 92 # 117 # hex4 s1 @ 92 # 117 # hex4 s2))"

definition encode_basestring_ascii :: "pystr \<Rightarrow> pystr" where
  "encode_basestring_ascii s = 34 # concat (map escape_char s) @ [34]"

text \<open>
  \<open>_iterencode_dict\<close> at level 0 with \<open>indent=4\<close>, for \<open>str\<close> keys and \<open>int\<close>
  values: \<open>newline_indent\<close> is a newline and four spaces, the item separator a
  comma and \<open>newline_indent\<close>, the key separator \<open>': '\<close>.
\<close>

definition newline_indent :: pystr where
  "newline_indent = 10 # replicate 4 32"

text \<open>
  The generator yields its chunks one by one and \<open>json.dump\<close> writes each to the
  file as it comes. When a value has more than 4300 digits the generator raises
  \<open>ValueError\<close> at that value: \<open>Inl (e, written)\<close> is the exception and the text
  written before it, \<open>Inr text\<close> the whole text.
\<close>

fun iterencode_items :: "bool \<Rightarrow> stock \<Rightarrow> (py_error \<times> pystr) + pystr" where
  "iterencode_items first [] = Inr []"
| "iterencode_items first ((key, value) # items) =
     (let chunks = (if first then [] else 44 # newline_indent)
                   @ encode_basestring_ascii key @ [58, 32]
      in case intstr value of
           Inl e \<Rightarrow> Inl (e, chunks)
         | Inr digits \<Rightarrow>
             (case iterencode_items False items of
                Inl (e, written) \<Rightarrow> Inl (e, chunks @ digits @ written)
              | Inr text \<Rightarrow> Inr (chunks @ digits @ text)))"

definition json_dump :: "stock \<Rightarrow> (py_error \<times> pystr) + pystr" where
  "json_dump dct =
     (if dct = [] then Inr [123, 125]
      else
        (case iterencode_items True dct of
           Inl (e, written) \<Rightarrow> Inl (e, 123 # newline_indent @ written)
         | Inr text \<Rightarrow> Inr (123 # newline_indent @ text @ [10, 125])))"

subsection \<open>Decoding\<close>

definition is_ws :: "nat \<Rightarrow> bool" where
  "is_ws c = (c = 32 \<or> c = 9 \<or> c = 10 \<or> c = 13)"

definition skip_ws :: "nat list \<Rightarrow> nat list" where
  "skip_ws s = dropWhile is_ws s"

definition is_digit :: "nat \<Rightarrow> bool" where
  "is_digit c = (48 \<le> c \<and> c \<le> 57)"

text \<open>
  \<open>int(lexeme)\<close> for a lexeme matched by \<open>-?(0|[1-9]\d*)\<close>: \<open>ValueError\<close> for more
  than 4300 digits.
\<close>

definition nat_of_digits :: "nat list \<Rightarrow> nat" where
  "nat_of_digits ds = foldl (\<lambda>a c. 10 * a + (c - 48)) 0 ds"

definition py_int :: "pystr \<Rightarrow> py_error + int" where
  "py_int lexeme =
     (let negative = (take 1 lexeme = [45]);
          ds = (if negative then drop 1 lexeme else lexeme)
      in if max_str_digits < length ds then Inl ValueError
         else Inr (if negative then - int (nat_of_digits ds) else int (nat_of_digits ds)))"

text \<open>
  \<open>NUMBER_RE\<close>, \<open>(-?(?:0|[1-9]\d*))(\.\d+)?([eE][-+]?\d+)?\<close>, matched at the start
  of the input: the three groups (empty when a group takes no part) and the rest.
\<close>

definition match_integer :: "nat list \<Rightarrow> (pystr \<times> nat list) option" where
  "match_integer s =
     (let sign = (if take 1 s = [45] then [45] else []);
          s1 = drop (length sign) s
      in case s1 of
           [] \<Rightarrow> None
         | c # s2 \<Rightarrow>
             if c = 48 then Some (sign @ [48], s2)
             else if 49 \<le> c \<and> c \<le> 57
               then Some (sign @ c # takeWhile is_digit s2, dropWhile is_digit s2)
             else None)"

definition match_frac :: "nat list \<Rightarrow> pystr \<times> nat list" where
  "match_frac s =
     (case s of
        c # d # s1 \<Rightarrow>
          if c = 46 \<and> is_digit d
            then (c # d # takeWhile is_digit s1, dropWhile is_digit s1)
          else ([], s)
      | _ \<Rightarrow> ([], s))"

definition match_exp :: "nat list \<Rightarrow> pystr \<times> nat list" where
  "match_exp s =
     (case s of
        [] \<Rightarrow> ([], s)
      | c # s1 \<Rightarrow>
          if c = 101 \<or> c = 69 then
            (let sign = (if take 1 s1 = [45] \<or> take 1 s1 = [43] then take 1 s1 else []);
                 s2 = drop (length sign) s1
             in case s2 of
                  [] \<Rightarrow> ([], s)
                | d # s3 \<Rightarrow>
                    if is_digit d
                      then (c # sign @ d # takeWhile is_digit s3, dropWhile is_digit s3)
                    else ([], s))
          else ([], s))"

definition match_number :: "nat list \<Rightarrow> ((pystr \<times> pystr \<times> pystr) \<times> nat list) option" where
  "match_number s =
     (case match_integer s of
        None \<Rightarrow> None
      | Some (integer, s1) \<Rightarrow>
          (let (frac, s2) = match_frac s1;
               (exp, s3) = match_exp s2
           in Some ((integer, frac, exp), s3)))"

text \<open>The four hexadecimal digits of a \<open>\uXXXX\<close> escape; \<open>None\<close> when they are not.\<close>

definition hex_value :: "nat \<Rightarrow> nat option" where
  "hex_value c =
     (if 48 \<le> c \<and> c \<le> 57 then Some (c - 48)
      else if 97 \<le> c \<and> c \<le> 102 then Some (c - 87)
      else if 65 \<le> c \<and> c \<le> 70 then Some (c - 55)
      else None)"

definition decode_uXXXX :: "nat list \<Rightarrow> nat option" where
  "decode_uXXXX s =
     (case map hex_value (take 4 s) of
        [Some a, Some b, Some c, Some d] \<Rightarrow> Some (((a * 16 + b) * 16 + c) * 16 + d)
      | _ \<Rightarrow> None)"

text \<open>\<open>BACKSLASH\<close>: the character of a short escape.\<close>

definition backslash :: "nat \<Rightarrow> nat option" where
  "backslash esc =
     (if esc = 34 then Some 34
      else if esc = 92 then Some 92
      else if esc = 47 then Some 47
      else if esc = 98 then Some 8
      else if esc = 102 then Some 12
      else if esc = 110 then Some 10
      else if esc = 114 then Some 13
      else if esc = 116 then Some 9
      else None)"

text \<open>
  \<open>py_scanstring\<close> with \<open>strict=True\<close>, from the character after the opening
  quote: the decoded string and the input after the closing quote, \<open>None\<close> where a
  \<open>JSONDecodeError\<close> is raised (no closing quote, a control character, a bad
  escape). A high surrogate followed by an escaped low surrogate is one character.
\<close>

fun scanstring :: "nat list \<Rightarrow> (pystr \<times> nat list) option" where
  "scanstring [] = None"
| "scanstring (c # s) =
     (if c = 34 then Some ([], s)
      else if c = 92 then
        (case s of
           [] \<Rightarrow> None
         | esc # s1 \<Rightarrow>
             if esc \<noteq> 117 then
               (case backslash esc of
                  None \<Rightarrow> None
                | Some char \<Rightarrow> map_option (\<lambda>(chunks, r). (char # chunks, r)) (scanstring s1))
             else
               (case decode_uXXXX s1 of
                  None \<Rightarrow> None
                | Some uni \<Rightarrow>
                    if 55296 \<le> uni \<and> uni \<le> 56319 \<and> take 2 (drop 4 s1) = [92, 117] then
                      (case decode_uXXXX (drop 6 s1) of
                         None \<Rightarrow> None
                       | Some uni2 \<Rightarrow>
                           if 56320 \<le> uni2 \<and> uni2 \<le> 57343 then
                             map_option
                               (\<lambda>(chunks, r).
                                  ((65536 + ((uni - 55296) * 1024 + (uni2 - 56320))) # chunks, r))
                               (scanstring (drop 10 s1))
                           else
                             map_option (\<lambda>(chunks, r). (uni # chunks, r))
                               (scanstring (drop 4 s1)))
                    else
                      map_option (\<lambda>(chunks, r). (uni # chunks, r))
                        (scanstring (drop 4 s1))))
      else if c < 32 then None
      else map_option (\<lambda>(chunks, r). (c # chunks, r)) (scanstring s))"

text \<open>\<open>dict(pairs)\<close>: a later pair overwrites the value of an equal earlier key.\<close>

definition dict :: "(pystr \<times> json) list \<Rightarrow> (pystr \<times> json) list" where
  "dict pairs = foldl (\<lambda>d (k, v). AList.update k v d) [] pairs"

text \<open>
  \<open>_scan_once\<close>, and the loops of \<open>JSONObject\<close> (entered after the opening quote
  of a key) and \<open>JSONArray\<close> (entered at an element). A syntax error reaches the
  caller as \<open>JSONDecodeError\<close>, the \<open>ValueError\<close> of \<open>int\<close> as it is.

  \<open>lim\<close> is the number of nested calls the interpreter's stack still allows: the
  scanner enters a recursive call for every object and array it meets, before it
  reads what is inside, and raises \<open>RecursionError\<close> when none is left. The first
  argument is the termination measure of the definition: it counts down with every
  call, \<open>json_loads\<close> starts it above twice the length of the text, and from there it
  is never used up (\<open>scan_once_fuel\<close> below).
\<close>

fun scan_once :: "nat \<Rightarrow> nat \<Rightarrow> nat list \<Rightarrow> py_error + (json \<times> nat list)"
  and JSONObject_loop ::
    "nat \<Rightarrow> nat \<Rightarrow> (pystr \<times> json) list \<Rightarrow> nat list \<Rightarrow> py_error + (json \<times> nat list)"
  and JSONArray_loop ::
    "nat \<Rightarrow> nat \<Rightarrow> json list \<Rightarrow> nat list \<Rightarrow> py_error + (json \<times> nat list)"
where
  "scan_once 0 lim s = Inl RecursionError"
| "scan_once (Suc n) lim [] = Inl JSONDecodeError"
| "scan_once (Suc n) lim (c # s) =
     (if c = 34 then
        (case scanstring s of
           None \<Rightarrow> Inl JSONDecodeError
         | Some (v, r) \<Rightarrow> Inr (JStr v, r))
      else if c = 123 then
        (if lim = 0 then Inl RecursionError
         else
           (case skip_ws s of
              [] \<Rightarrow> Inl JSONDecodeError
            | c' # r \<Rightarrow>
                if c' = 125 then Inr (JObject [], r)
                else if c' = 34 then JSONObject_loop n (lim - 1) [] r
                else Inl JSONDecodeError))
      else if c = 91 then
        (if lim = 0 then Inl RecursionError
         else
           (case skip_ws s of
              [] \<Rightarrow> Inl JSONDecodeError
            | c' # r \<Rightarrow>
                if c' = 93 then Inr (JArray [], r)
                else JSONArray_loop n (lim - 1) [] (c' # r)))
      else if take 4 (c # s) = str ''null'' then Inr (JNull, drop 3 s)
      else if take 4 (c # s) = str ''true'' then Inr (JBool True, drop 3 s)
      else if take 5 (c # s) = str ''false'' then Inr (JBool False, drop 4 s)
      else
        (case match_number (c # s) of
           Some ((integer, frac, exp), r) \<Rightarrow>
             if frac \<noteq> [] \<or> exp \<noteq> [] then Inr (JFloat (integer @ frac @ exp), r)
             else (case py_int integer of Inl e \<Rightarrow> Inl e | Inr i \<Rightarrow> Inr (JInt i, r))
         | None \<Rightarrow>
             if take 3 (c # s) = str ''NaN'' then Inr (JFloat (str ''NaN''), drop 2 s)
             else if take 8 (c # s) = str ''Infinity'' then Inr (JFloat (str ''Infinity''), drop 7 s)
             else if take 9 (c # s) = str ''-Infinity'' then Inr (JFloat (str ''-Infinity''), drop 8 s)
             else Inl JSONDecodeError))"
| "JSONObject_loop 0 lim pairs s = Inl RecursionError"
| "JSONObject_loop (Suc n) lim pairs s =
     (case scanstring s of
        None \<Rightarrow> Inl JSONDecodeError
      | Some (key, s1) \<Rightarrow>
          (case skip_ws s1 of
             [] \<Rightarrow> Inl JSONDecodeError
           | c # s2 \<Rightarrow>
               if c \<noteq> 58 then Inl JSONDecodeError
               else
                 (case scan_once n lim (skip_ws s2) of
                    Inl e \<Rightarrow> Inl e
                  | Inr (v, s3) \<Rightarrow>
                      (case skip_ws s3 of
                         [] \<Rightarrow> Inl JSONDecodeError
                       | c' # s4 \<Rightarrow>
                           if c' = 125 then Inr (JObject (dict (pairs @ [(key, v)])), s4)
                           else if c' \<noteq> 44 then Inl JSONDecodeError
                           else
                             (case skip_ws s4 of
                                [] \<Rightarrow> Inl JSONDecodeError
                              | c'' # s5 \<Rightarrow>
                                  if c'' = 34 then JSONObject_loop n lim (pairs @ [(key, v)]) s5
                                  else Inl JSONDecodeError)))))"
| "JSONArray_loop 0 lim vals s = Inl RecursionError"
| "JSONArray_loop (Suc n) lim vals s =
     (case scan_once n lim s of
        Inl e \<Rightarrow> Inl e
      | Inr (v, s1) \<Rightarrow>
          (case skip_ws s1 of
             [] \<Rightarrow> Inl JSONDecodeError
           | c # s2 \<Rightarrow>
               if c = 93 then Inr (JArray (vals @ [v]), s2)
               else if c \<noteq> 44 then Inl JSONDecodeError
               else JSONArray_loop n lim (vals @ [v]) (skip_ws s2)))"

text \<open>
  \<open>json.loads\<close>, with the nesting \<open>lim\<close> the interpreter allows at the call: a
  leading byte order mark is refused, white space around the document is skipped,
  anything after it is \<open>Extra data\<close>.
\<close>

definition json_loads :: "nat \<Rightarrow> pystr \<Rightarrow> py_error + json" where
  "json_loads lim s =
     (if take 1 s = [65279] then Inl JSONDecodeError
      else
        (case scan_once (Suc (length s + length s)) lim (skip_ws s) of
           Inl e \<Rightarrow> Inl e
         | Inr (obj, r) \<Rightarrow> if skip_ws r = [] then Inr obj else Inl JSONDecodeError))"

section \<open>Saving and loading\<close>

text \<open>
  The files, by name: the text each one holds, \<open>None\<close> for a name with no file.
  The text is what a read with \<open>encoding="utf-8"\<close> returns; the bytes on disk and
  the failures of the operating system (permissions, directories) are not modelled.
  The stock mapping as the Python object \<open>json.load\<close> builds for it is
  \<open>json_of_stock\<close>.
\<close>

type_synonym files = "pystr \<Rightarrow> pystr option"

definition json_of_stock :: "stock \<Rightarrow> json" where
  "json_of_stock d = JObject (map (\<lambda>(k, v). (k, JInt v)) d)"

text \<open>
  The sink of \<open>logging.basicConfig\<close> is the file \<open>inventory.log\<close>, opened for
  appending: a record goes to the end of that file as one line, the time of the
  call (\<open>asctime\<close>), the level and the message.
\<close>

definition log_file :: pystr where
  "log_file = str ''inventory.log''"

definition log_line :: "pystr \<Rightarrow> pystr \<Rightarrow> pystr \<Rightarrow> pystr" where
  "log_line asctime levelname message =
     asctime @ str '' - '' @ levelname @ str '' - '' @ message @ [10]"

definition append_log :: "files \<Rightarrow> pystr \<Rightarrow> files" where
  "append_log fs line =
     fs(log_file \<mapsto> (case fs log_file of None \<Rightarrow> [] | Some content \<Rightarrow> content) @ line)"

text \<open>
  \<open>load_data(file)\<close>, with the nesting \<open>lim\<close> the interpreter allows: only
  \<open>FileNotFoundError\<close> and \<open>JSONDecodeError\<close> are caught, every other exception of
  \<open>json.load\<close> leaves the function.
\<close>

definition load_data :: "nat \<Rightarrow> files \<Rightarrow> pystr \<Rightarrow> (py_error + json) \<times> log_record list" where
  "load_data lim fs file =
     (case fs file of
        None \<Rightarrow> (Inr (JObject []), [(WARNING, File_not_found)])
      | Some content \<Rightarrow>
          (case json_loads lim content of
             Inr obj \<Rightarrow> (Inr obj, [])
           | Inl JSONDecodeError \<Rightarrow> (Inr (JObject []), [(ERROR, Decode_failed)])
           | Inl e \<Rightarrow> (Inl e, [])))"

text \<open>
  \<open>save_data(stock_data, file)\<close> at the time \<open>asctime\<close>: the file is opened for
  writing, which empties it, and holds what \<open>json.dump\<close> wrote when it is closed,
  also when \<open>json.dump\<close> raised. After a complete dump line 70 logs the record, which
  the sink appends to \<open>inventory.log\<close>.
\<close>

definition save_data :: "pystr \<Rightarrow> files \<Rightarrow> stock \<Rightarrow> pystr \<Rightarrow> files outcome \<times> log_record list" where
  "save_data asctime fs stock_data file =
     (case json_dump stock_data of
        Inl (e, written) \<Rightarrow> (Inl (e, fs(file \<mapsto> written)), [])
      | Inr text \<Rightarrow>
          (Inr (append_log (fs(file \<mapsto> text))
                  (log_line asctime (str ''INFO'') (str ''Data saved successfully to '' @ file))),
           [(INFO, Saved)]))"

text \<open>The file system in which no file exists.\<close>

definition no_files :: files where
  "no_files = (\<lambda>file. None)"

section \<open>Strings that survive the codec\<close>

text \<open>
  A \<open>str\<close> holds code points below \<open>0x110000\<close>. The decoder joins an escaped high
  surrogate and an escaped low surrogate that follows it into one character, so a
  string is read back as written exactly when no high surrogate is directly followed
  by a low surrogate (\<open>unpaired\<close>); text without surrogate code points is of this kind.
\<close>

definition high_surrogate :: "nat \<Rightarrow> bool" where
  "high_surrogate c = (55296 \<le> c \<and> c \<le> 56319)"

definition low_surrogate :: "nat \<Rightarrow> bool" where
  "low_surrogate c = (56320 \<le> c \<and> c \<le> 57343)"

fun unpaired :: "pystr \<Rightarrow> bool" where
  "unpaired (c # d # s) = (\<not> (high_surrogate c \<and> low_surrogate d) \<and> unpaired (d # s))"
| "unpaired s = True"

definition is_pystr :: "pystr \<Rightarrow> bool" where
  "is_pystr s = list_all (\<lambda>c. c < 1114112) s"

definition keys_unpaired :: "stock \<Rightarrow> bool" where
  "keys_unpaired d = list_all (\<lambda>(k, v). is_pystr k \<and> unpaired k) d"

text \<open>Every value of the mapping has at most 4300 digits.\<close>

definition values_short :: "stock \<Rightarrow> bool" where
  "values_short d = list_all (\<lambda>(k, v). int_str_ok v) d"

text \<open>
  Notions of the proofs: the input after a \<open>\uXXXX\<close> escape does not continue it to
  a surrogate pair; the text of one item of a dump after the opening quote of its
  key; the text of the items that follow the first, and of a whole dump, when no
  value is too long.
\<close>

definition no_join :: "nat list \<Rightarrow> bool" where
  "no_join t =
     (take 2 t \<noteq> [92, 117]
      \<or> (case decode_uXXXX (drop 2 t) of None \<Rightarrow> False | Some u \<Rightarrow> \<not> low_surrogate u))"

definition item_text :: "pystr \<Rightarrow> int \<Rightarrow> pystr" where
  "item_text k v = concat (map escape_char k) @ 34 # 58 # 32 # int_repr v"

fun items_text :: "stock \<Rightarrow> pystr" where
  "items_text [] = []"
| "items_text ((k, v) # items) =
     44 # 10 # 32 # 32 # 32 # 32 # 34 # item_text k v @ items_text items"

definition dump_text :: "stock \<Rightarrow> pystr" where
  "dump_text d =
     (case d of
        [] \<Rightarrow> [123, 125]
      | (k, v) # items \<Rightarrow>
          123 # 10 # 32 # 32 # 32 # 32 # 34 # item_text k v @ items_text items @ [10, 125])"

section \<open>Properties of the inventory operations\<close>

declare digits_of.simps [simp del]





lemmas short_eval = int_str_ok_def max_str_digits_def digits_of.simps

lemma digits_of_power10: "digits_of (10 ^ k) = 49 # replicate k 48"
proof (induction k)
  case 0
  show ?case by (simp add: digits_of.simps)
next
  case (Suc k)
  have "\<not> (10::nat) * 10 ^ k < 10" by simp
  then have "digits_of (10 * 10 ^ k) = digits_of (10 ^ k) @ [48]"
    by (subst digits_of.simps) simp
  with Suc show ?case by (simp add: replicate_append_same)
qed

lemma int_str_ok_power10: "int_str_ok (10 ^ k) \<longleftrightarrow> k < max_str_digits"
proof -
  have "digits_of (nat \<bar>(10::int) ^ k\<bar>) = 49 # replicate k 48"
    by (simp add: nat_power_eq digits_of_power10)
  then show ?thesis unfolding int_str_ok_def by auto
qed

lemma huge_too_long: "\<not> int_str_ok huge"
  by (simp add: huge_def int_str_ok_power10)

lemma huge_positive: "0 < huge"
  by (simp add: huge_def)













text \<open>
  Claim C2, as stated, fails: for the quantity \<open>10 ^ 4300\<close>, an integer of 4301
  digits, \<open>add\<close> stores the quantity and then raises \<open>ValueError\<close> while it formats
  the entry for its \<open>logs\<close> list; the call does not return.
\<close>

theorem add_then_get_qty_counterexample:
  "add_item [] (PStr (str ''apple'')) (PInt huge)
   = (Inl (ValueError, [(str ''apple'', huge)]), [])"
  using huge_too_long by (simp add: dict_get_def)

text \<open>
  Claim C2, amended: for every mapping, every text item and every integer \<open>qty\<close> of
  at most 4300 digits, \<open>add\<close> returns and logs the addition, and \<open>get_qty\<close> then
  returns the quantity \<open>get_qty\<close> returned before the \<open>add\<close> plus \<open>qty\<close>; a key
  that was absent is created with the value \<open>qty\<close>. For a longer \<open>qty\<close> the same
  sum is stored, but \<open>add\<close> raises \<open>ValueError\<close> after the store and logs nothing.
\<close>

theorem add_then_get_qty:
  assumes "get_qty d (PStr k) = Inr p"
  shows "\<exists>d'. add_item d (PStr k) (PInt q)
                = (if int_str_ok q then (Inr d', [(INFO, Added)]) else (Inl (ValueError, d'), []))
           \<and> get_qty d' (PStr k) = Inr (p + q)
           \<and> (map_of d k = None \<longrightarrow> map_of d' k = Some q)"
  using assms by (auto simp: dict_get_def AList.update_conv' Let_def)

theorem add_then_get_qty_witness:
  "get_qty [(str ''pear'', 2)] (PStr (str ''apple'')) = Inr 0
   \<and> map_of [(str ''pear'', 2)] (str ''apple'') = None
   \<and> int_str_ok 10
   \<and> (\<exists>d'. add_item [(str ''pear'', 2)] (PStr (str ''apple'')) (PInt 10) = (Inr d', [(INFO, Added)])
           \<and> get_qty d' (PStr (str ''apple'')) = Inr (0 + 10)
           \<and> map_of d' (str ''apple'') = Some 10)"
  using add_then_get_qty[of "[(str ''pear'', 2)]" "str ''apple''" 0 10]
  by (simp add: dict_get_def str_def short_eval)

text \<open>
  Claim C3: when \<open>item\<close> is stored with quantity \<open>cur\<close> and \<open>qty \<ge> cur\<close>,
  \<open>remove\<close> returns a mapping in which \<open>item\<close> is absent; the key is deleted,
  not kept with a value \<open>\<le> 0\<close>.
\<close>

theorem remove_exhausts:
  assumes "map_of d k = Some cur" and "cur \<le> q"
  shows "\<exists>d'. remove_item d (PStr k) (PInt q) = (Inr d', [])
           \<and> map_of d' k = None \<and> k \<notin> fst ` set d'"
  using assms
  by (simp add: remove_item_def AList.delete_update_same AList.delete_conv' AList.delete_notin_dom)

theorem remove_exhausts_witness:
  "map_of [(str ''apple'', 7), (str ''pear'', 2)] (str ''apple'') = Some 7 \<and> (7::int) \<le> 9
   \<and> remove_item [(str ''apple'', 7), (str ''pear'', 2)] (PStr (str ''apple'')) (PInt 9)
       = (Inr [(str ''pear'', 2)], [])
   \<and> map_of [(str ''pear'', 2)] (str ''apple'') = None"
  using remove_exhausts[of "[(str ''apple'', 7), (str ''pear'', 2)]" "str ''apple''" 7 9]
  by (simp add: remove_item_def str_def)

text \<open>
  Claim C6: when \<open>item\<close> is not text or \<open>qty\<close> is not an integer, \<open>add\<close>
  raises nothing, returns the mapping as it was and logs one warning.
\<close>

theorem add_invalid_types_noop:
  assumes "\<not> isinstance_str item \<or> \<not> isinstance_int qty"
  shows "add_item d item qty = (Inr d, [(WARNING, Invalid_types)])"
  using assms by (cases item) auto

theorem add_invalid_types_noop_witness:
  "\<not> isinstance_int (PStr (str ''ten''))
   \<and> add_item [(str ''apple'', 7)] (PStr (str ''apple'')) (PStr (str ''ten''))
       = (Inr [(str ''apple'', 7)], [(WARNING, Invalid_types)])"
  using add_invalid_types_noop[of "PStr (str ''apple'')" "PStr (str ''ten'')" "[(str ''apple'', 7)]"]
  by simp



text \<open>
  Claim C9, as stated, fails: an item that is a list cannot be hashed, and
  \<open>get_qty\<close> raises \<open>TypeError\<close>.
\<close>

theorem get_qty_lookup_counterexample:
  "get_qty [(str ''apple'', 7)] (PList [PStr (str ''apple'')]) = Inl TypeError"
  by simp

text \<open>
  Claim C9, amended: for every mapping and every hashable item (text, \<open>None\<close>, a
  boolean, an integer), \<open>get_qty\<close> returns the stored quantity when the item is
  present and 0 when it is absent, and does not fail; only text is ever present. For
  an unhashable item (a list) it raises \<open>TypeError\<close>. It reads the mapping and has no
  effect on it.
\<close>

theorem get_qty_lookup:
  "(hashable item \<longrightarrow>
      get_qty d item
      = Inr (case item of
               PStr k \<Rightarrow> (case map_of d k of None \<Rightarrow> 0 | Some q \<Rightarrow> q)
             | _ \<Rightarrow> 0))
   \<and> (\<not> hashable item \<longrightarrow> get_qty d item = Inl TypeError)"
  by (cases item) (simp_all add: dict_get_def)

theorem get_qty_lookup_witness:
  "hashable (PStr (str ''apple''))
   \<and> get_qty [(str ''apple'', 7)] (PStr (str ''apple'')) = Inr 7
   \<and> hashable (PStr (str ''pear''))
   \<and> get_qty [(str ''apple'', 7)] (PStr (str ''pear'')) = Inr 0
   \<and> \<not> hashable (PList [])
   \<and> get_qty [(str ''apple'', 7)] (PList []) = Inl TypeError"
  using get_qty_lookup[of "PStr (str ''apple'')" "[(str ''apple'', 7)]"]
    get_qty_lookup[of "PStr (str ''pear'')" "[(str ''apple'', 7)]"]
    get_qty_lookup[of "PList []" "[(str ''apple'', 7)]"]
  by (simp add: str_def)

text \<open>
  Claim C10: a boolean quantity passes the type check of \<open>add\<close>: \<open>True\<close> adds 1
  to the item's quantity, \<open>False\<close> adds 0 and still stores the key; neither takes
  the invalid-type branch.
\<close>

theorem add_bool_quantity:
  "add_item d (PStr k) (PBool True) = (Inr (AList.update k (dict_get d k 0 + 1) d), [(INFO, Added)])
   \<and> add_item d (PStr k) (PBool False) = (Inr (AList.update k (dict_get d k 0) d), [(INFO, Added)])
   \<and> get_qty (AList.update k (dict_get d k 0 + 1) d) (PStr k) = Inr (dict_get d k 0 + 1)
   \<and> map_of (AList.update k (dict_get d k 0) d) k = Some (dict_get d k 0)"
  by (simp add: dict_get_def AList.update_conv')

section \<open>The codec reads back what it writes\<close>

subsection \<open>Integers\<close>


lemma digits_of_all_digits: "list_all is_digit (digits_of n)"
proof (induction n rule: digits_of.induct)
  case (1 n)
  show ?case
  proof (cases "n < 10")
    case True
    then show ?thesis by (subst digits_of.simps) (simp add: is_digit_def)
  next
    case False
    have "n mod 10 < 10" by simp
    then have "is_digit (48 + n mod 10)" unfolding is_digit_def by linarith
    with False 1 show ?thesis by (subst digits_of.simps) simp
  qed
qed

lemma digits_of_pos_first:
  "0 < n \<Longrightarrow> \<exists>c ds. digits_of n = c # ds \<and> 49 \<le> c \<and> c \<le> 57"
proof (induction n rule: digits_of.induct)
  case (1 n)
  show ?case
  proof (cases "n < 10")
    case True
    with 1(2) show ?thesis by (subst digits_of.simps) simp
  next
    case False
    then have "0 < n div 10" by simp
    with 1(1) False obtain c ds where "digits_of (n div 10) = c # ds" "49 \<le> c" "c \<le> 57"
      by blast
    with False show ?thesis by (subst digits_of.simps) simp
  qed
qed

lemma nat_of_digits_snoc:
  "nat_of_digits (ds @ [c]) = 10 * nat_of_digits ds + (c - 48)"
  by (simp add: nat_of_digits_def)

lemma nat_of_digits_of: "nat_of_digits (digits_of n) = n"
proof (induction n rule: digits_of.induct)
  case (1 n)
  show ?case
  proof (cases "n < 10")
    case True
    then show ?thesis by (subst digits_of.simps) (simp add: nat_of_digits_def)
  next
    case False
    with 1 show ?thesis by (subst digits_of.simps) (simp add: nat_of_digits_snoc)
  qed
qed

lemma takeWhile_digits:
  "list_all is_digit ds \<Longrightarrow> \<not> is_digit c \<Longrightarrow> takeWhile is_digit (ds @ c # r) = ds"
  by (induction ds) auto

lemma dropWhile_digits:
  "list_all is_digit ds \<Longrightarrow> \<not> is_digit c \<Longrightarrow> dropWhile is_digit (ds @ c # r) = c # r"
  by (induction ds) auto

lemma match_digits_of:
  assumes "\<not> is_digit c"
  shows "match_integer (digits_of n @ c # r) = Some (digits_of n, c # r)"
proof (cases "n = 0")
  case True
  then show ?thesis
    by (subst (1 2) digits_of.simps) (simp add: match_integer_def)
next
  case False
  then obtain c0 ds where d: "digits_of n = c0 # ds" "49 \<le> c0" "c0 \<le> 57"
    using digits_of_pos_first[of n] by auto
  from digits_of_all_digits[of n] d have ds: "list_all is_digit ds" by simp
  from d ds assms show ?thesis
    by (simp add: match_integer_def takeWhile_digits dropWhile_digits)
qed

lemma match_neg_digits_of:
  assumes "\<not> is_digit c"
  shows "match_integer (45 # digits_of n @ c # r) = Some (45 # digits_of n, c # r)"
proof (cases "n = 0")
  case True
  then show ?thesis
    by (subst (1 2) digits_of.simps) (simp add: match_integer_def)
next
  case False
  then obtain c0 ds where d: "digits_of n = c0 # ds" "49 \<le> c0" "c0 \<le> 57"
    using digits_of_pos_first[of n] by auto
  from digits_of_all_digits[of n] d have ds: "list_all is_digit ds" by simp
  from d ds assms show ?thesis
    by (simp add: match_integer_def takeWhile_digits dropWhile_digits)
qed

lemma match_integer_int_repr:
  "\<not> is_digit c \<Longrightarrow> match_integer (int_repr i @ c # r) = Some (int_repr i, c # r)"
  by (simp add: int_repr_def match_digits_of match_neg_digits_of)

lemma hd_digits_of: "\<exists>c ds. digits_of n = c # ds \<and> 48 \<le> c \<and> c \<le> 57"
proof (cases "n = 0")
  case True
  then show ?thesis by (subst digits_of.simps) simp
next
  case False
  then show ?thesis using digits_of_pos_first[of n] by fastforce
qed

lemma py_int_int_repr:
  assumes "int_str_ok i"
  shows "py_int (int_repr i) = Inr i"
proof (cases "i < 0")
  case True
  then have "nat \<bar>i\<bar> = nat (- i)" by simp
  with assms have "length (digits_of (nat (- i))) \<le> max_str_digits"
    by (simp add: int_str_ok_def)
  with True show ?thesis
    using nat_of_digits_of[of "nat (- i)"] by (simp add: int_repr_def py_int_def)
next
  case False
  obtain c ds where d: "digits_of (nat i) = c # ds" "48 \<le> c"
    using hd_digits_of[of "nat i"] by blast
  from False have "nat \<bar>i\<bar> = nat i" by simp
  with assms d have l: "length ds < max_str_digits"
    by (simp add: int_str_ok_def)
  have "nat_of_digits (c # ds) = nat i"
    using nat_of_digits_of[of "nat i"] d by simp
  with False d l show ?thesis
    by (simp add: int_repr_def py_int_def)
qed

lemma int_repr_first:
  "\<exists>c0 ds. int_repr i = c0 # ds \<and> (c0 = 45 \<or> 48 \<le> c0 \<and> c0 \<le> 57)"
  using hd_digits_of[of "nat i"] by (auto simp: int_repr_def)

lemma match_number_int_repr:
  assumes "\<not> is_digit c" "c \<noteq> 46" "c \<noteq> 101" "c \<noteq> 69"
  shows "match_number (int_repr i @ c # r) = Some ((int_repr i, [], []), c # r)"
  using assms
  by (simp add: match_number_def match_integer_int_repr match_frac_def match_exp_def
           split: list.splits)

lemma str_simps:
  "str ''null'' = [110, 117, 108, 108]"
  "str ''true'' = [116, 114, 117, 101]"
  "str ''false'' = [102, 97, 108, 115, 101]"
  by (simp_all add: str_def)

lemma scan_once_int_repr:
  assumes "\<not> is_digit c" "c \<noteq> 46" "c \<noteq> 101" "c \<noteq> 69" and ok: "int_str_ok i"
  shows "scan_once (Suc n) lim (int_repr i @ c # r) = Inr (JInt i, c # r)"
proof -
  obtain c0 ds where d: "int_repr i = c0 # ds" "c0 = 45 \<or> 48 \<le> c0 \<and> c0 \<le> 57"
    using int_repr_first[of i] by blast
  have m: "match_number (c0 # ds @ c # r) = Some ((c0 # ds, [], []), c # r)"
    using match_number_int_repr[OF assms(1-4), of i r] d by simp
  have p: "py_int (c0 # ds) = Inr i" using py_int_int_repr[OF ok] d by simp
  from d(2) show ?thesis
    unfolding d(1) by (auto simp: str_simps m p)
qed

subsection \<open>Strings\<close>

lemma hex_value_hex_digit: "d < 16 \<Longrightarrow> hex_value (hex_digit d) = Some d"
  by (auto simp: hex_value_def hex_digit_def)

lemma hex4_value:
  fixes n :: nat
  assumes "n < 65536"
  shows "((n div 4096 mod 16 * 16 + n div 256 mod 16) * 16 + n div 16 mod 16) * 16 + n mod 16 = n"
proof -
  define a where "a = n div 16"
  define b where "b = a div 16"
  define c where "c = b div 16"
  define r0 where "r0 = n mod 16"
  define r1 where "r1 = a mod 16"
  define r2 where "r2 = b mod 16"
  have n: "n = 16 * a + r0" unfolding a_def r0_def by simp
  have a: "a = 16 * b + r1" unfolding b_def r1_def by simp
  have b: "b = 16 * c + r2" unfolding c_def r2_def by simp
  have d256: "n div 256 = b" unfolding b_def a_def by (simp add: div_mult2_eq[symmetric])
  have d4096: "n div 4096 = c" unfolding c_def b_def a_def by (simp add: div_mult2_eq[symmetric])
  have "c < 16" using assms unfolding d4096[symmetric] by (simp add: div_less_iff_less_mult)
  then have c: "c mod 16 = c" by simp
  have "((c * 16 + r2) * 16 + r1) * 16 + r0 = n"
    using n a b by simp
  then show ?thesis
    unfolding d256 d4096 c r0_def r1_def r2_def a_def[symmetric] .
qed

lemma decode_hex4: "n < 65536 \<Longrightarrow> decode_uXXXX (hex4 n @ t) = Some n"
  using hex4_value[of n]
  by (simp add: decode_uXXXX_def hex4_def hex_value_hex_digit)

lemma length_hex4 [simp]: "length (hex4 n) = 4"
  by (simp add: hex4_def)

lemma scanstring_u:
  assumes "n < 65536" "high_surrogate n \<longrightarrow> no_join t"
  shows "scanstring (92 # 117 # hex4 n @ t) = map_option (\<lambda>(chunks, r). (n # chunks, r)) (scanstring t)"
proof -
  have dn: "decode_uXXXX (hex4 n @ t) = Some n" using assms(1) by (rule decode_hex4)
  have d4: "drop 4 (hex4 n @ t) = t" by simp
  have d6: "drop 6 (hex4 n @ t) = drop 2 t" by simp
  show ?thesis
  proof (cases "high_surrogate n \<and> take 2 t = [92, 117]")
    case True
    with assms obtain u where u: "decode_uXXXX (drop 2 t) = Some u" "\<not> low_surrogate u"
      by (auto simp: no_join_def split: option.splits)
    from u(2) have nl: "\<not> (56320 \<le> u \<and> u \<le> 57343)" by (simp add: low_surrogate_def)
    from True have hi: "55296 \<le> n \<and> n \<le> 56319 \<and> take 2 t = [92, 117]"
      by (simp add: high_surrogate_def)
    show ?thesis
      apply (subst scanstring.simps)
      apply (simp only: list.case dn option.case d4 d6 u(1) hi nl if_True if_False)
      apply simp
      done
  next
    case False
    then have hi: "\<not> (55296 \<le> n \<and> n \<le> 56319 \<and> take 2 t = [92, 117])"
      by (simp add: high_surrogate_def)
    show ?thesis
      apply (subst scanstring.simps)
      apply (simp only: list.case dn option.case d4 hi if_False)
      apply simp
      done
  qed
qed

lemma scanstring_pair:
  assumes "a < 1024" "b < 1024"
  shows "scanstring (92 # 117 # hex4 (55296 + a) @ 92 # 117 # hex4 (56320 + b) @ t)
         = map_option (\<lambda>(chunks, r). ((65536 + (a * 1024 + b)) # chunks, r)) (scanstring t)"
proof -
  let ?h = "55296 + a" and ?l = "56320 + b"
  have h: "?h < 65536" "55296 \<le> ?h" "?h \<le> 56319" using assms by simp_all
  have l: "?l < 65536" "56320 \<le> ?l" "?l \<le> 57343" using assms by simp_all
  have d6: "drop 6 (hex4 ?h @ 92 # 117 # hex4 ?l @ t) = hex4 ?l @ t" by (simp add: hex4_def)
  have d10: "drop 10 (hex4 ?h @ 92 # 117 # hex4 ?l @ t) = t" by (simp add: hex4_def)
  have dh: "decode_uXXXX (hex4 ?h @ 92 # 117 # hex4 ?l @ t) = Some ?h"
    using h(1) by (rule decode_hex4)
  have dl: "decode_uXXXX (hex4 ?l @ t) = Some ?l"
    using l(1) by (rule decode_hex4)
  have t2: "take 2 (drop 4 (hex4 ?h @ 92 # 117 # hex4 ?l @ t)) = [92, 117]"
    by (simp add: hex4_def)
  show ?thesis
    apply (subst scanstring.simps)
    apply (simp only: list.case dh option.case d6 dl d10 t2 h l)
    apply simp
    done
qed

lemma surrogate_split:
  fixes c :: nat
  assumes "65536 \<le> c" "c < 1114112"
  obtains a b where "a < 1024" "b < 1024" "c = 65536 + (a * 1024 + b)"
    "(c - 65536) div 1024 mod 1024 = a" "(c - 65536) mod 1024 = b"
proof -
  define n where "n = c - 65536"
  define a where "a = n div 1024"
  define b where "b = n mod 1024"
  have n: "n < 1048576" "c = 65536 + n" using assms by (simp_all add: n_def)
  have a: "a < 1024" unfolding a_def using n(1) by (simp add: div_less_iff_less_mult)
  have b: "b < 1024" unfolding b_def by simp
  have "n = a * 1024 + b" unfolding a_def b_def by simp
  with n have c: "c = 65536 + (a * 1024 + b)" by simp
  have am: "n div 1024 mod 1024 = a" using a unfolding a_def by simp
  show ?thesis
    using that[OF a b c] am unfolding n_def b_def by simp
qed

lemma scanstring_escape_char:
  assumes "c < 1114112" "high_surrogate c \<longrightarrow> no_join t"
  shows "scanstring (escape_char c @ t) = map_option (\<lambda>(chunks, r). (c # chunks, r)) (scanstring t)"
proof -
  consider (short) "c \<in> {92, 34, 8, 12, 10, 13, 9}"
    | (plain) "c \<notin> {92, 34, 8, 12, 10, 13, 9}" "32 \<le> c" "c \<le> 126"
    | (u) "c \<notin> {92, 34, 8, 12, 10, 13, 9}" "\<not> (32 \<le> c \<and> c \<le> 126)" "c < 65536"
    | (pair) "65536 \<le> c"
    by fastforce
  then show ?thesis
  proof cases
    case short
    then show ?thesis by (auto simp: escape_char_def backslash_def)
  next
    case plain
    then show ?thesis by (simp add: escape_char_def)
  next
    case u
    then have "escape_char c = 92 # 117 # hex4 c" by (simp add: escape_char_def)
    with scanstring_u[OF u(3) assms(2)] show ?thesis by simp
  next
    case pair
    from surrogate_split[OF pair assms(1)] obtain a b where ab: "a < 1024" "b < 1024"
      "c = 65536 + (a * 1024 + b)"
      "(c - 65536) div 1024 mod 1024 = a" "(c - 65536) mod 1024 = b" by blast
    from pair have "escape_char c
        = 92 # 117 # hex4 (55296 + (c - 65536) div 1024 mod 1024)
          @ 92 # 117 # hex4 (56320 + (c - 65536) mod 1024)"
      by (simp add: escape_char_def Let_def)
    then have "escape_char c = 92 # 117 # hex4 (55296 + a) @ 92 # 117 # hex4 (56320 + b)"
      unfolding ab(4,5) .
    with scanstring_pair[OF ab(1,2), of t] ab(3) show ?thesis by simp
  qed
qed

lemma no_join_quote: "no_join (34 # r)"
  by (simp add: no_join_def)

lemma no_join_escape_char:
  assumes "c < 1114112" "\<not> low_surrogate c"
  shows "no_join (escape_char c @ t)"
proof -
  consider (short) "c \<in> {92, 34, 8, 12, 10, 13, 9}"
    | (plain) "c \<notin> {92, 34, 8, 12, 10, 13, 9}" "32 \<le> c" "c \<le> 126"
    | (u) "c \<notin> {92, 34, 8, 12, 10, 13, 9}" "\<not> (32 \<le> c \<and> c \<le> 126)" "c < 65536"
    | (pair) "65536 \<le> c"
    by fastforce
  then show ?thesis
  proof cases
    case short
    then show ?thesis by (auto simp: escape_char_def no_join_def)
  next
    case plain
    then show ?thesis by (simp add: escape_char_def no_join_def)
  next
    case u
    then have "escape_char c = 92 # 117 # hex4 c" by (simp add: escape_char_def)
    with u(3) assms(2) show ?thesis by (simp add: no_join_def decode_hex4)
  next
    case pair
    from surrogate_split[OF pair assms(1)] obtain a b where ab: "a < 1024" "b < 1024"
      "c = 65536 + (a * 1024 + b)"
      "(c - 65536) div 1024 mod 1024 = a" "(c - 65536) mod 1024 = b" by blast
    have h: "55296 + a < 65536" "\<not> low_surrogate (55296 + a)"
      using ab(1) by (simp_all add: low_surrogate_def)
    from pair have "escape_char c
        = 92 # 117 # hex4 (55296 + (c - 65536) div 1024 mod 1024)
          @ 92 # 117 # hex4 (56320 + (c - 65536) mod 1024)"
      by (simp add: escape_char_def Let_def)
    then have "escape_char c = 92 # 117 # hex4 (55296 + a) @ 92 # 117 # hex4 (56320 + b)"
      unfolding ab(4,5) .
    with h show ?thesis by (simp add: no_join_def decode_hex4)
  qed
qed

lemma unpaired_tail: "unpaired (c # k) \<Longrightarrow> unpaired k"
  by (cases k) simp_all

lemma scanstring_roundtrip:
  "is_pystr k \<Longrightarrow> unpaired k \<Longrightarrow>
   scanstring (concat (map escape_char k) @ 34 # r) = Some (k, r)"
proof (induction k)
  case Nil
  then show ?case by simp
next
  case (Cons c k)
  from Cons.prems have c: "c < 1114112" and k: "is_pystr k"
    by (simp_all add: is_pystr_def)
  have tail: "scanstring (concat (map escape_char k) @ 34 # r) = Some (k, r)"
    using Cons.IH[OF k unpaired_tail[OF Cons.prems(2)]] .
  have nj: "high_surrogate c \<longrightarrow> no_join (concat (map escape_char k) @ 34 # r)"
  proof (cases k)
    case Nil
    then show ?thesis by (simp add: no_join_quote)
  next
    case (Cons d s)
    with Cons.prems(2) k show ?thesis
      using no_join_escape_char[of d] by (auto simp: is_pystr_def)
  qed
  from scanstring_escape_char[OF c nj] tail show ?case by simp
qed

subsection \<open>The dumped mapping\<close>

lemma replicate4: "replicate 4 x = [x, x, x, x]"
  by (simp add: numeral_eq_Suc)

lemma newline_indent_eq: "newline_indent = [10, 32, 32, 32, 32]"
  unfolding newline_indent_def replicate4 ..

lemma iterencode_items_text:
  "values_short items \<Longrightarrow> iterencode_items False items = Inr (items_text items)"
proof (induction items)
  case Nil
  show ?case by simp
next
  case (Cons p items)
  obtain k v where p: "p = (k, v)" by (cases p)
  from Cons show ?case
    by (simp add: p values_short_def intstr_def item_text_def encode_basestring_ascii_def
          newline_indent_eq)
qed

lemma json_dump_text:
  assumes "values_short d"
  shows "json_dump d = Inr (dump_text d)"
proof (cases d)
  case Nil
  then show ?thesis by (simp add: json_dump_def dump_text_def)
next
  case (Cons p items)
  obtain k v where p: "p = (k, v)" by (cases p)
  from assms Cons p have v: "int_str_ok v" and items: "values_short items"
    by (simp_all add: values_short_def)
  from v iterencode_items_text[OF items] show ?thesis
    by (simp add: Cons p json_dump_def dump_text_def intstr_def item_text_def
          encode_basestring_ascii_def newline_indent_eq)
qed

lemma skip_ws_simps:
  "skip_ws [] = []"
  "skip_ws (32 # s) = skip_ws s"
  "skip_ws (10 # s) = skip_ws s"
  "skip_ws (58 # s) = 58 # s"
  "skip_ws (44 # s) = 44 # s"
  "skip_ws (34 # s) = 34 # s"
  "skip_ws (125 # s) = 125 # s"
  "skip_ws (123 # s) = 123 # s"
  by (simp_all add: skip_ws_def is_ws_def)

lemma skip_ws_int_repr: "skip_ws (int_repr v @ s) = int_repr v @ s"
  using int_repr_first[of v] by (auto simp: skip_ws_def is_ws_def)

lemma update_fresh:
  "k \<notin> fst ` set acc \<Longrightarrow> AList.update k v acc = acc @ [(k, v)]"
  by (induction acc) auto

lemma foldl_update_distinct:
  "distinct (map fst (acc @ ps)) \<Longrightarrow>
   foldl (\<lambda>d (k, v). AList.update k v d) acc ps = acc @ ps"
proof (induction ps arbitrary: acc)
  case Nil
  then show ?case by simp
next
  case (Cons p ps)
  obtain k v where p: "p = (k, v)" by (cases p)
  from Cons.prems p have fresh: "k \<notin> fst ` set acc" by auto
  from Cons.prems p have "distinct (map fst ((acc @ [(k, v)]) @ ps))" by auto
  from Cons.IH[OF this] show ?case
    by (simp add: p update_fresh[OF fresh])
qed

lemma dict_distinct: "distinct (map fst ps) \<Longrightarrow> dict ps = ps"
  using foldl_update_distinct[of "[]" ps] by (simp add: dict_def)

lemma JSONObject_loop_items:
  assumes "is_pystr k" "unpaired k"
    and "keys_unpaired items"
    and "int_str_ok v" "values_short items"
    and "Suc (length items) < n"
  shows "JSONObject_loop n lim pairs (item_text k v @ items_text items @ 10 # 125 # r)
         = Inr (JObject (dict (pairs @ (k, JInt v) # map (\<lambda>(k, v). (k, JInt v)) items)), r)"
  using assms
proof (induction items arbitrary: n pairs k v)
  case Nil
  then obtain m where n: "n = Suc (Suc m)" by (cases n; cases "n - 1") auto
  have s: "scanstring (item_text k v @ 10 # 125 # r) = Some (k, 58 # 32 # int_repr v @ 10 # 125 # r)"
    using scanstring_roundtrip[OF Nil(1,2)] by (simp add: item_text_def)
  have v: "scan_once (Suc m) lim (int_repr v @ 10 # 125 # r) = Inr (JInt v, 10 # 125 # r)"
    by (rule scan_once_int_repr) (use Nil in \<open>simp_all add: is_digit_def\<close>)
  show ?case
    unfolding n
    apply (subst JSONObject_loop.simps)
    apply (simp add: s skip_ws_simps skip_ws_int_repr v)
    done
next
  case (Cons p items)
  obtain k' v' where p: "p = (k', v')" by (cases p)
  from Cons.prems obtain m where n: "n = Suc (Suc m)" by (cases n; cases "n - 1") auto
  let ?tail = "44 # 10 # 32 # 32 # 32 # 32 # 34 # item_text k' v' @ items_text items @ 10 # 125 # r"
  have s: "scanstring (item_text k v @ ?tail) = Some (k, 58 # 32 # int_repr v @ ?tail)"
    using scanstring_roundtrip[OF Cons.prems(1,2)] by (simp add: item_text_def)
  have v: "scan_once (Suc m) lim (int_repr v @ ?tail) = Inr (JInt v, ?tail)"
    by (rule scan_once_int_repr) (use Cons.prems in \<open>simp_all add: is_digit_def\<close>)
  have IH: "JSONObject_loop (Suc m) lim (pairs @ [(k, JInt v)])
              (item_text k' v' @ items_text items @ 10 # 125 # r)
            = Inr (JObject (dict ((pairs @ [(k, JInt v)]) @ (k', JInt v') # map (\<lambda>(k, v). (k, JInt v)) items)), r)"
    using Cons.prems p n by (intro Cons.IH) (simp_all add: keys_unpaired_def values_short_def)
  show ?case
    unfolding n p items_text.simps
    apply (subst JSONObject_loop.simps)
    apply (simp add: s skip_ws_simps skip_ws_int_repr v del: JSONObject_loop.simps)
    apply (simp add: IH del: JSONObject_loop.simps)
    done
qed

lemma length_items_text: "length items \<le> length (items_text items)"
  by (induction items rule: items_text.induct) auto


section \<open>The scanner never uses up its bound\<close>

text \<open>
  Every successful scan consumes input. So a first argument above twice the length of
  the input is never used up: the scan gives the same result for every such value,
  and \<open>RecursionError\<close> then comes from the nesting limit alone.
\<close>

lemma length_skip_ws: "length (skip_ws s) \<le> length s"
  by (simp add: skip_ws_def length_dropWhile_le)

lemma skip_ws_Cons: "skip_ws s = c # r \<Longrightarrow> length r < length s"
  using length_skip_ws[of s] by simp

lemma scanstring_shorter: "scanstring s = Some (k, r) \<Longrightarrow> length r < length s"
proof (induction s arbitrary: k r rule: scanstring.induct)
  case 1
  then show ?case by simp
next
  case (2 c s)
  from "2.prems" show ?case
    using "2.IH"
    by (fastforce split: if_splits list.splits option.splits)
qed

lemma match_integer_shorter: "match_integer s = Some (g, r) \<Longrightarrow> length r < length s"
proof (cases "take 1 s = [45]")
  case True
  then obtain s1 where s: "s = 45 # s1" by (cases s) auto
  assume "match_integer s = Some (g, r)"
  then show ?thesis
    unfolding s using length_dropWhile_le[of is_digit "tl s1"]
    by (auto simp: match_integer_def Let_def split: list.splits if_splits)
next
  case False
  assume "match_integer s = Some (g, r)"
  with False show ?thesis
    using length_dropWhile_le[of is_digit "tl s"]
    by (auto simp: match_integer_def Let_def split: list.splits if_splits)
qed

lemma match_frac_le: "match_frac s = (g, r) \<Longrightarrow> length r \<le> length s"
  using length_dropWhile_le[of is_digit "tl (tl s)"]
  by (auto simp: match_frac_def split: list.splits if_splits)

lemma match_exp_le: "match_exp s = (g, r) \<Longrightarrow> length r \<le> length s"
proof -
  assume a: "match_exp s = (g, r)"
  show ?thesis
  proof (cases s)
    case Nil
    with a show ?thesis by (simp add: match_exp_def)
  next
    case (Cons c s1)
    let ?sign = "if take 1 s1 = [45] \<or> take 1 s1 = [43] then take 1 s1 else []"
    let ?s2 = "drop (length ?sign) s1"
    have l2: "length ?s2 \<le> length s1" by simp
    show ?thesis
    proof (cases ?s2)
      case Nil
      with a Cons show ?thesis by (auto simp: match_exp_def Let_def split: if_splits)
    next
      case (Cons d s3)
      have "length (dropWhile is_digit s3) \<le> length s3" by (rule length_dropWhile_le)
      with Cons l2 have "length (dropWhile is_digit s3) \<le> length s1" by simp
      with a Cons \<open>s = c # s1\<close> show ?thesis
        by (auto simp: match_exp_def Let_def split: if_splits)
    qed
  qed
qed

lemma match_number_shorter: "match_number s = Some (g, r) \<Longrightarrow> length r < length s"
proof -
  assume a: "match_number s = Some (g, r)"
  then obtain i s1 where i: "match_integer s = Some (i, s1)"
    by (auto simp: match_number_def split: option.splits)
  obtain f s2 where f: "match_frac s1 = (f, s2)" by (cases "match_frac s1")
  obtain e s3 where e: "match_exp s2 = (e, s3)" by (cases "match_exp s2")
  from a i f e have "r = s3" by (simp add: match_number_def)
  with match_integer_shorter[OF i] match_frac_le[OF f] match_exp_le[OF e]
  show ?thesis by simp
qed

lemma scan_progress:
  "(scan_once n lim s = Inr (v, r) \<longrightarrow> length r < length s)
   \<and> (JSONObject_loop n lim p s = Inr (v, r) \<longrightarrow> length r < length s)
   \<and> (JSONArray_loop n lim vs s = Inr (v, r) \<longrightarrow> length r < length s)"
proof (induction n arbitrary: lim s p vs v r)
  case 0
  show ?case by simp
next
  case (Suc n)
  note IH1 = Suc.IH[THEN conjunct1, rule_format]
  note IH2 = Suc.IH[THEN conjunct2, THEN conjunct1, rule_format]
  note IH3 = Suc.IH[THEN conjunct2, THEN conjunct2, rule_format]
  have scan: "length r < length s" if "scan_once n lim (skip_ws s) = Inr (v, r)" for lim s v r
    using IH1[OF that] length_skip_ws[of s] by simp
  have scan': "length r < length s" if "scan_once n lim s = Inr (v, r)" for lim s v r
    using IH1[OF that] .
  have obj: "length r < length s" if "JSONObject_loop n lim p s = Inr (v, r)" for lim s p v r
    using IH2[OF that] .
  have arr: "length r < length s" if "JSONArray_loop n lim vs (skip_ws s) = Inr (v, r)" for lim s vs v r
    using IH3[OF that] length_skip_ws[of s] by simp
  have arr': "length r < length s" if "JSONArray_loop n lim vs s = Inr (v, r)" for lim s vs v r
    using IH3[OF that] .
  have 1: "length r < length s" if a: "scan_once (Suc n) lim s = Inr (v, r)"
  proof (cases s)
    case Nil
    with a show ?thesis by simp
  next
    case (Cons c s')
    consider (cstr) "c = 34" | (cobj) "c = 123" | (carr) "c = 91"
      | (other) "c \<noteq> 34" "c \<noteq> 123" "c \<noteq> 91"
      by blast
    then show ?thesis
    proof cases
      case cstr
      with a Cons show ?thesis
        by (auto split: option.splits dest: scanstring_shorter)
    next
      case cobj
      with a Cons obtain c' r' where sk: "skip_ws s' = c' # r'"
        and r: "(c' = 125 \<and> r = r') \<or> JSONObject_loop n (lim - 1) [] r' = Inr (v, r)"
        by (auto split: list.splits if_splits)
      from r obj[of "lim - 1" "[]" r' v r] have "length r \<le> length r'" by auto
      with skip_ws_Cons[OF sk] Cons show ?thesis by simp
    next
      case carr
      with a Cons obtain c' r' where sk: "skip_ws s' = c' # r'"
        and r: "(c' = 93 \<and> r = r') \<or> JSONArray_loop n (lim - 1) [] (c' # r') = Inr (v, r)"
        by (auto split: list.splits if_splits)
      from r arr'[of "lim - 1" "[]" "c' # r'" v r] have "length r \<le> length r'" by auto
      with skip_ws_Cons[OF sk] Cons show ?thesis by simp
    next
      case other
      with a Cons show ?thesis
        by (auto split: if_splits option.splits sum.splits dest: match_number_shorter)
    qed
  qed
  have 2: "length r < length s" if a: "JSONObject_loop (Suc n) lim p s = Inr (v, r)"
  proof -
    from a obtain key s1 where k: "scanstring s = Some (key, s1)"
      by (auto split: option.splits)
    from a k obtain s2 where s2: "skip_ws s1 = 58 # s2"
      by (auto split: list.splits if_splits)
    from a k s2 obtain v' s3 where v': "scan_once n lim (skip_ws s2) = Inr (v', s3)"
      by (auto split: sum.splits)
    from a k s2 v' obtain c' s4 where s4: "skip_ws s3 = c' # s4"
      by (auto split: list.splits)
    have l: "length s4 < length s"
      using scanstring_shorter[OF k] skip_ws_Cons[OF s2] scan[OF v'] skip_ws_Cons[OF s4] by simp
    show ?thesis
    proof (cases "c' = 125")
      case True
      with a k s2 v' s4 l show ?thesis by simp
    next
      case False
      with a k s2 v' s4 obtain s5 where s5: "skip_ws s4 = 34 # s5"
        and loop: "JSONObject_loop n lim (p @ [(key, v')]) s5 = Inr (v, r)"
        by (auto split: list.splits if_splits)
      from obj[OF loop] skip_ws_Cons[OF s5] l show ?thesis by simp
    qed
  qed
  have 3: "length r < length s" if a: "JSONArray_loop (Suc n) lim vs s = Inr (v, r)"
  proof -
    from a obtain v' s1 where v': "scan_once n lim s = Inr (v', s1)"
      by (auto split: sum.splits)
    from a v' obtain c s2 where s2: "skip_ws s1 = c # s2"
      by (auto split: list.splits)
    have l: "length s2 < length s"
      using scan'[OF v'] skip_ws_Cons[OF s2] by simp
    show ?thesis
    proof (cases "c = 93")
      case True
      with a v' s2 l show ?thesis by simp
    next
      case False
      with a v' s2 have "JSONArray_loop n lim (vs @ [v']) (skip_ws s2) = Inr (v, r)"
        by (auto split: if_splits)
      from arr[OF this] l show ?thesis by simp
    qed
  qed
  from 1 2 3 show ?case by blast
qed

lemmas scan_once_shorter = scan_progress[THEN conjunct1, rule_format]

lemma scan_fuel_Suc:
  "(2 * length s < n \<longrightarrow> scan_once (Suc n) lim s = scan_once n lim s)
   \<and> (2 * length s < n \<longrightarrow> JSONObject_loop (Suc n) lim p s = JSONObject_loop n lim p s)
   \<and> (2 * length s + 1 < n \<longrightarrow> JSONArray_loop (Suc n) lim vs s = JSONArray_loop n lim vs s)"
proof (induction n arbitrary: lim s p vs)
  case 0
  show ?case by simp
next
  case (Suc n)
  note IH1 = Suc.IH[THEN conjunct1, rule_format]
  note IH2 = Suc.IH[THEN conjunct2, THEN conjunct1, rule_format]
  note IH3 = Suc.IH[THEN conjunct2, THEN conjunct2, rule_format]
  note loops_del = JSONObject_loop.simps JSONArray_loop.simps
  have 1: "scan_once (Suc (Suc n)) lim s = scan_once (Suc n) lim s" if b: "2 * length s < Suc n"
  proof (cases s)
    case Nil
    then show ?thesis by simp
  next
    case (Cons c s')
    show ?thesis
    proof (cases "skip_ws s'")
      case Nil
      then show ?thesis
        unfolding Cons scan_once.simps(3)[of "Suc n" lim c s'] scan_once.simps(3)[of n lim c s']
        by simp
    next
      case sk: (Cons c' r)
      from skip_ws_Cons[OF sk] b Cons have l: "2 * length r < n" "2 * length (c' # r) + 1 < n"
        by simp_all
      have o: "JSONObject_loop (Suc n) (lim - 1) [] r = JSONObject_loop n (lim - 1) [] r"
        using IH2[OF l(1)] .
      have a: "JSONArray_loop (Suc n) (lim - 1) [] (c' # r) = JSONArray_loop n (lim - 1) [] (c' # r)"
        using IH3[OF l(2)] .
      show ?thesis
        unfolding Cons scan_once.simps(3)[of "Suc n" lim c s'] scan_once.simps(3)[of n lim c s']
        by (simp only: sk list.case o a)
    qed
  qed
  have 2: "JSONObject_loop (Suc (Suc n)) lim p s = JSONObject_loop (Suc n) lim p s"
    if b: "2 * length s < Suc n"
  proof -
    note unf = JSONObject_loop.simps(2)[of "Suc n" lim p s] JSONObject_loop.simps(2)[of n lim p s]
    show ?thesis
    proof (cases "scanstring s")
      case None
      then show ?thesis unfolding unf by simp
    next
      case (Some ks)
      obtain key s1 where k: "scanstring s = Some (key, s1)" using Some by (cases ks) simp
      show ?thesis
      proof (cases "skip_ws s1")
        case Nil
        with k show ?thesis unfolding unf by simp
      next
        case s2: (Cons c s2)
        have l2: "2 * length (skip_ws s2) < n"
          using scanstring_shorter[OF k] skip_ws_Cons[OF s2] length_skip_ws[of s2] b by simp
        have e1: "scan_once (Suc n) lim (skip_ws s2) = scan_once n lim (skip_ws s2)"
          using IH1[OF l2] .
        show ?thesis
        proof (cases "scan_once n lim (skip_ws s2)")
          case (Inl e')
          with k s2 e1 show ?thesis unfolding unf by simp
        next
          case (Inr vs3)
          obtain v' s3 where v': "scan_once n lim (skip_ws s2) = Inr (v', s3)"
            using Inr by (cases vs3) simp
          have l3: "2 * length s3 < n" using scan_once_shorter[OF v'] l2 by simp
          show ?thesis
          proof (cases "skip_ws s3")
            case Nil
            with k s2 e1 v' show ?thesis unfolding unf by simp
          next
            case s4: (Cons c' s4)
            show ?thesis
            proof (cases "skip_ws s4")
              case Nil
              with k s2 e1 v' s4 show ?thesis unfolding unf by simp
            next
              case s5: (Cons c'' s5)
              have "2 * length s5 < n"
                using skip_ws_Cons[OF s4] skip_ws_Cons[OF s5] l3 by simp
              from IH2[OF this]
              have e2: "JSONObject_loop (Suc n) lim (p @ [(key, v')]) s5
                        = JSONObject_loop n lim (p @ [(key, v')]) s5" .
              from k s2 e1 v' s4 s5 e2 show ?thesis
                unfolding unf by (simp del: loops_del)
            qed
          qed
        qed
      qed
    qed
  qed
  have 3: "JSONArray_loop (Suc (Suc n)) lim vs s = JSONArray_loop (Suc n) lim vs s"
    if b: "2 * length s + 1 < Suc n"
  proof -
    note unf = JSONArray_loop.simps(2)[of "Suc n" lim vs s] JSONArray_loop.simps(2)[of n lim vs s]
    from b have "2 * length s < n" by simp
    from IH1[OF this] have e1: "scan_once (Suc n) lim s = scan_once n lim s" .
    show ?thesis
    proof (cases "scan_once n lim s")
      case (Inl e')
      with e1 show ?thesis unfolding unf by simp
    next
      case (Inr vs1)
      obtain v' s1 where v': "scan_once n lim s = Inr (v', s1)" using Inr by (cases vs1) simp
      show ?thesis
      proof (cases "skip_ws s1")
        case Nil
        with e1 v' show ?thesis unfolding unf by simp
      next
        case s2: (Cons c s2)
        have "2 * length (skip_ws s2) + 1 < n"
          using scan_once_shorter[OF v'] skip_ws_Cons[OF s2] length_skip_ws[of s2] b by simp
        from IH3[OF this]
        have e2: "JSONArray_loop (Suc n) lim (vs @ [v']) (skip_ws s2)
                  = JSONArray_loop n lim (vs @ [v']) (skip_ws s2)" .
        from e1 v' s2 e2 show ?thesis
          unfolding unf by (simp del: loops_del)
      qed
    qed
  qed
  from 1 2 3 show ?case by blast
qed

lemma scan_once_fuel:
  assumes "2 * length s < n"
  shows "scan_once (n + k) lim s = scan_once n lim s"
proof (induction k)
  case 0
  show ?case by simp
next
  case (Suc k)
  from assms have "2 * length s < n + k" by simp
  from scan_fuel_Suc[THEN conjunct1, rule_format, OF this] Suc show ?case by simp
qed

section \<open>Dumps that are cut short or continued\<close>

subsection \<open>A string cut short\<close>

text \<open>
  The string scanner reads from left to right and looks ahead only after the escape
  of a high surrogate. So when it accepts a prefix of an input it accepts the input
  with the same string, and the escaped text of a key, cut anywhere before its
  closing quote, is rejected.
\<close>

lemma short_list_cases:
  assumes "length (s :: 'a list) < 4"
  obtains "s = []" | a where "s = [a]" | a b where "s = [a, b]"
        | a b c where "s = [a, b, c]"
proof (cases s)
  case Nil then show ?thesis using that by simp
next
  case (Cons a s1)
  show ?thesis
  proof (cases s1)
    case Nil with Cons show ?thesis using that by simp
  next
    case (Cons b s2)
    note c2 = this
    show ?thesis
    proof (cases s2)
      case Nil with c2 \<open>s = a # s1\<close> show ?thesis using that by simp
    next
      case (Cons c s3)
      with c2 \<open>s = a # s1\<close> assms have "s = [a, b, c]" by simp
      then show ?thesis using that by simp
    qed
  qed
qed

lemma decode_short: "length s < 4 \<Longrightarrow> decode_uXXXX s = None"
  by (erule short_list_cases) (simp_all add: decode_uXXXX_def split: option.splits)

lemma decode_take:
  assumes "decode_uXXXX (take j s) = Some u"
  shows "4 \<le> j \<and> decode_uXXXX s = Some u"
proof (cases "4 \<le> j")
  case True
  then have "take 4 (take j s) = take 4 s" by (simp add: min_def)
  with assms True show ?thesis by (simp add: decode_uXXXX_def)
next
  case False
  then have "decode_uXXXX (take j s) = None" by (intro decode_short) simp
  with assms show ?thesis by simp
qed

lemma scanstring_117:
  "scanstring (92 # 117 # s1) =
     (case decode_uXXXX s1 of
        None \<Rightarrow> None
      | Some uni \<Rightarrow>
          if 55296 \<le> uni \<and> uni \<le> 56319 \<and> take 2 (drop 4 s1) = [92, 117] then
            (case decode_uXXXX (drop 6 s1) of
               None \<Rightarrow> None
             | Some uni2 \<Rightarrow>
                 if 56320 \<le> uni2 \<and> uni2 \<le> 57343 then
                   map_option
                     (\<lambda>(chunks, r).
                        ((65536 + ((uni - 55296) * 1024 + (uni2 - 56320))) # chunks, r))
                     (scanstring (drop 10 s1))
                 else
                   map_option (\<lambda>(chunks, r). (uni # chunks, r))
                     (scanstring (drop 4 s1)))
          else
            map_option (\<lambda>(chunks, r). (uni # chunks, r))
              (scanstring (drop 4 s1)))"
  by simp

lemma take2_take:
  assumes "take 2 (take n X) = [a, b]"
  shows "2 \<le> n \<and> take 2 X = [a, b]"
proof (cases "2 \<le> n")
  case True
  with assms show ?thesis by (simp add: min_def)
next
  case False
  then have "length (take 2 (take n X)) < 2" by simp
  with assms show ?thesis by simp
qed

lemma scanstring_prefix:
  "scanstring (take m s) = Some (k, r) \<Longrightarrow> scanstring s = Some (k, r @ drop m s)"
proof (induction s arbitrary: m k r rule: length_induct)
  case (1 s)
  have ih: "scanstring ys = Some (k', r' @ drop j ys)"
    if "length ys < length s" and "scanstring (take j ys) = Some (k', r')" for ys j k' r'
    using 1(1) that by blast
  note P = 1(2)
  from P obtain c s' m' where s: "s = c # s'" and m: "m = Suc m'"
    by (cases s; cases m) auto
  show ?case
  proof (cases "c = 34")
    case True
    with P s m show ?thesis by auto
  next
    case c34: False
    show ?thesis
    proof (cases "c = 92")
      case False
      with c34 P s m obtain k1 where "\<not> c < 32" and
        k1: "scanstring (take m' s') = Some (k1, r)" "k = c # k1"
        by (auto split: if_splits)
      from ih[OF _ k1(1)] s have "scanstring s' = Some (k1, r @ drop m' s')" by simp
      with c34 False \<open>\<not> c < 32\<close> k1(2) s m show ?thesis by simp
    next
      case c92: True
      from P s m c92 obtain esc s1 j where s': "s' = esc # s1" and m': "m' = Suc j"
        by (cases s'; cases m') auto
      show ?thesis
      proof (cases "esc = 117")
        case False
        with P s m c92 s' m' obtain ch k1 where ch: "backslash esc = Some ch" and
          k1: "scanstring (take j s1) = Some (k1, r)" "k = ch # k1"
          by (auto split: option.splits)
        from ih[OF _ k1(1)] s s' have "scanstring s1 = Some (k1, r @ drop j s1)" by simp
        with False ch k1(2) s m c92 s' m' show ?thesis by simp
      next
        case esc: True
        let ?t = "take j s1"
        from P s m c92 s' m' esc have Pt: "scanstring (92 # 117 # ?t) = Some (k, r)" by simp
        have goal: "scanstring (92 # 117 # s1) = Some (k, r @ drop j s1) \<Longrightarrow> ?thesis"
          using s m c92 s' m' esc by simp
        have len4: "length (drop 4 s1) < length s" and len10: "length (drop 10 s1) < length s"
          using s s' by simp_all
        from Pt obtain uni where du: "decode_uXXXX ?t = Some uni"
          by (cases "decode_uXXXX ?t") (simp_all add: scanstring_117 del: scanstring.simps)
        from decode_take[OF du] have j4: "4 \<le> j" and dfull: "decode_uXXXX s1 = Some uni"
          by simp_all
        have dr4: "drop 4 ?t = take (j - 4) (drop 4 s1)"
          and dr6: "drop 6 ?t = take (j - 6) (drop 6 s1)"
          and dr10: "drop 10 ?t = take (j - 10) (drop 10 s1)"
          by (simp_all add: drop_take)
        show ?thesis
        proof (cases "55296 \<le> uni \<and> uni \<le> 56319 \<and> take 2 (drop 4 ?t) = [92, 117]")
          case pair: True
          then have t2: "take 2 (take (j - 4) (drop 4 s1)) = [92, 117]"
            using dr4 by simp
          from take2_take[OF t2] have j6: "6 \<le> j" and full2: "take 2 (drop 4 s1) = [92, 117]"
            using j4 by auto
          from Pt du pair obtain uni2 where du2: "decode_uXXXX (drop 6 ?t) = Some uni2"
            by (cases "decode_uXXXX (drop 6 ?t)") (simp_all add: scanstring_117 del: scanstring.simps)
          from du2 dr6 have "decode_uXXXX (take (j - 6) (drop 6 s1)) = Some uni2" by simp
          from decode_take[OF this] have j10: "10 \<le> j"
            and dfull2: "decode_uXXXX (drop 6 s1) = Some uni2"
            using j6 by auto
          show ?thesis
          proof (cases "56320 \<le> uni2 \<and> uni2 \<le> 57343")
            case True
            from Pt du pair du2 True obtain k1 where
              k1: "scanstring (drop 10 ?t) = Some (k1, r)"
                "k = (65536 + ((uni - 55296) * 1024 + (uni2 - 56320))) # k1"
              by (auto simp add: scanstring_117 simp del: scanstring.simps)
            from k1(1) dr10 have "scanstring (take (j - 10) (drop 10 s1)) = Some (k1, r)" by simp
            from ih[OF len10 this] j10
            have "scanstring (drop 10 s1) = Some (k1, r @ drop j s1)" by simp
            with dfull pair full2 dfull2 True k1(2) show ?thesis
              by (intro goal) (simp add: scanstring_117 del: scanstring.simps)
          next
            case False
            from Pt du pair du2 False obtain k1 where
              k1: "scanstring (drop 4 ?t) = Some (k1, r)" "k = uni # k1"
              by (auto simp add: scanstring_117 simp del: scanstring.simps)
            from k1(1) dr4 have "scanstring (take (j - 4) (drop 4 s1)) = Some (k1, r)" by simp
            from ih[OF len4 this] j4
            have "scanstring (drop 4 s1) = Some (k1, r @ drop j s1)" by simp
            with dfull pair full2 dfull2 False k1(2) show ?thesis
              by (intro goal) (simp add: scanstring_117 del: scanstring.simps)
          qed
        next
          case single: False
          from Pt du single obtain k1 where
            k1: "scanstring (drop 4 ?t) = Some (k1, r)" "k = uni # k1"
            by (auto simp add: scanstring_117 simp del: scanstring.simps)
          from k1(1) dr4 have pre: "scanstring (take (j - 4) (drop 4 s1)) = Some (k1, r)" by simp
          from ih[OF len4 this] j4
          have full: "scanstring (drop 4 s1) = Some (k1, r @ drop j s1)" by simp
          have "\<not> (55296 \<le> uni \<and> uni \<le> 56319 \<and> take 2 (drop 4 s1) = [92, 117])"
          proof
            assume hi: "55296 \<le> uni \<and> uni \<le> 56319 \<and> take 2 (drop 4 s1) = [92, 117]"
            then obtain X where X: "drop 4 s1 = 92 # 117 # X"
              by (cases "drop 4 s1"; cases "tl (drop 4 s1)") (auto simp: numeral_2_eq_2)
            have "j - 4 < 2"
            proof (rule ccontr)
              assume "\<not> j - 4 < 2"
              then have "take 2 (take (j - 4) (drop 4 s1)) = take 2 (drop 4 s1)"
                by (simp add: min_def)
              with hi single dr4 show False by simp
            qed
            then have "j - 4 = 0 \<or> j - 4 = 1" by arith
            then have "scanstring (take (j - 4) (drop 4 s1)) = None"
              unfolding X by auto
            with pre show False by simp
          qed
          with dfull full k1(2) show ?thesis
            by (intro goal) (auto simp add: scanstring_117 simp del: scanstring.simps)
        qed
      qed
    qed
  qed
qed

lemma scanstring_truncated:
  assumes "is_pystr k" "unpaired k" "m \<le> length (concat (map escape_char k))"
  shows "scanstring (take m (concat (map escape_char k))) = None"
proof (rule ccontr)
  let ?e = "concat (map escape_char k)"
  assume "scanstring (take m ?e) \<noteq> None"
  then obtain k' r' where "scanstring (take m ?e) = Some (k', r')" by auto
  with assms(3) have "scanstring (take m (?e @ [34])) = Some (k', r')" by simp
  from scanstring_prefix[OF this]
  have "scanstring (?e @ [34]) = Some (k', r' @ drop m (?e @ [34]))" .
  with scanstring_roundtrip[OF assms(1,2), of "[]"] have "r' @ drop m (?e @ [34]) = []"
    by simp
  with assms(3) show False by simp
qed

subsection \<open>An integer cut short\<close>

text \<open>
  A prefix of the digits of an integer is rejected when it is the sign alone, and is
  an integer followed by the end of the input otherwise.
\<close>

lemma all_digits_While:
  assumes "list_all is_digit ds"
  shows "takeWhile is_digit ds = ds" and "dropWhile is_digit ds = []"
  using assms by (simp_all add: list_all_iff)

lemma list_all_take: "list_all P xs \<Longrightarrow> list_all P (take n xs)"
  by (auto simp: list_all_iff dest: in_set_takeD)

lemma scan_once_digits:
  assumes "49 \<le> d0" "d0 \<le> 57" "list_all is_digit ds" "length ds < max_str_digits"
  shows "scan_once (Suc f) lim (d0 # ds) = Inr (JInt (int (nat_of_digits (d0 # ds))), [])"
proof -
  have m: "match_number (d0 # ds) = Some ((d0 # ds, [], []), [])"
    using assms(1,2)
    by (simp add: match_number_def match_integer_def match_frac_def match_exp_def
          all_digits_While[OF assms(3)])
  have p: "py_int (d0 # ds) = Inr (int (nat_of_digits (d0 # ds)))"
    using assms(1,4) by (simp add: py_int_def)
  from assms(1,2) show ?thesis
    by (auto simp: str_simps m p)
qed

lemma scan_once_neg_digits:
  assumes "49 \<le> d0" "d0 \<le> 57" "list_all is_digit ds" "length ds < max_str_digits"
  shows "scan_once (Suc f) lim (45 # d0 # ds)
         = Inr (JInt (- int (nat_of_digits (d0 # ds))), [])"
proof -
  have m: "match_number (45 # d0 # ds) = Some ((45 # d0 # ds, [], []), [])"
    using assms(1,2)
    by (simp add: match_number_def match_integer_def match_frac_def match_exp_def
          all_digits_While[OF assms(3)])
  have p: "py_int (45 # d0 # ds) = Inr (- int (nat_of_digits (d0 # ds)))"
    using assms(4) by (simp add: py_int_def)
  show ?thesis
    by (simp add: str_simps m p)
qed

lemma scan_once_zero: "scan_once (Suc f) lim [48] = Inr (JInt 0, [])"
  by (simp add: str_simps match_number_def match_integer_def match_frac_def match_exp_def
        py_int_def nat_of_digits_def max_str_digits_def)

lemma scan_once_minus: "scan_once (Suc f) lim [45] = Inl JSONDecodeError"
  by (simp add: str_def match_number_def match_integer_def)

lemma scan_once_int_prefix:
  assumes "int_str_ok v" "0 < j"
  shows "scan_once (Suc f) lim (take j (int_repr v)) = Inl JSONDecodeError
       \<or> (\<exists>i. scan_once (Suc f) lim (take j (int_repr v)) = Inr (JInt i, []))"
proof (cases "v < 0")
  case True
  then obtain d0 ds where D: "digits_of (nat (- v)) = d0 # ds" "49 \<le> d0" "d0 \<le> 57"
    using digits_of_pos_first[of "nat (- v)"] by auto
  from digits_of_all_digits[of "nat (- v)"] D have ds: "list_all is_digit ds" by simp
  from True have "nat \<bar>v\<bar> = nat (- v)" by simp
  with assms(1) D have len: "length ds < max_str_digits" by (simp add: int_str_ok_def)
  from True D have r: "int_repr v = 45 # d0 # ds" by (simp add: int_repr_def)
  from assms(2) obtain j1 where j: "j = Suc j1" by (cases j) auto
  show ?thesis
  proof (cases j1)
    case 0
    with j r show ?thesis by (simp add: scan_once_minus del: scan_once.simps)
  next
    case (Suc j2)
    have "scan_once (Suc f) lim (45 # d0 # take j2 ds)
          = Inr (JInt (- int (nat_of_digits (d0 # take j2 ds))), [])"
      using D(2,3) ds len by (intro scan_once_neg_digits list_all_take) simp_all
    with j Suc r show ?thesis by (simp del: scan_once.simps)
  qed
next
  case False
  from assms(2) obtain j1 where j: "j = Suc j1" by (cases j) auto
  show ?thesis
  proof (cases "v = 0")
    case True
    have "digits_of 0 = [48]" by (subst digits_of.simps) simp
    with True j show ?thesis by (simp add: int_repr_def scan_once_zero del: scan_once.simps)
  next
    case nz: False
    with False obtain d0 ds where D: "digits_of (nat v) = d0 # ds" "49 \<le> d0" "d0 \<le> 57"
      using digits_of_pos_first[of "nat v"] by auto
    from digits_of_all_digits[of "nat v"] D have ds: "list_all is_digit ds" by simp
    from False have "nat \<bar>v\<bar> = nat v" by simp
    with assms(1) D have len: "length ds < max_str_digits" by (simp add: int_str_ok_def)
    from False D have r: "int_repr v = d0 # ds" by (simp add: int_repr_def)
    have "scan_once (Suc f) lim (d0 # take j1 ds)
          = Inr (JInt (int (nat_of_digits (d0 # take j1 ds))), [])"
      using D(2,3) ds len by (intro scan_once_digits list_all_take) simp_all
    with j r show ?thesis by (simp del: scan_once.simps)
  qed
qed

lemma skip_ws_take_ws: "list_all is_ws w \<Longrightarrow> skip_ws (take j w) = []"
  by (auto simp: skip_ws_def list_all_iff dest: in_set_takeD)

lemma skip_ws_take_int_repr: "skip_ws (take u (int_repr v)) = take u (int_repr v)"
proof (cases u)
  case 0
  then show ?thesis by (simp add: skip_ws_simps)
next
  case (Suc u1)
  obtain c0 ds where "int_repr v = c0 # ds" "c0 = 45 \<or> 48 \<le> c0 \<and> c0 \<le> 57"
    using int_repr_first[of v] by blast
  with Suc show ?thesis by (auto simp: skip_ws_def is_ws_def)
qed

subsection \<open>A dump cut short\<close>

text \<open>
  Every proper prefix of the text of a dump is rejected with \<open>JSONDecodeError\<close>:
  the cut falls in a key, between a key and its value, in a value, or after a value
  where a comma or the closing brace is still to come.
\<close>

lemma take_prefix_le: "w \<le> length xs \<Longrightarrow> take w (xs @ ys) = take w xs"
  by simp

lemma loop_after_key:
  assumes "scanstring s = Some (key, 58 # s2)"
  shows "JSONObject_loop (Suc n) lim pairs s =
     (case scan_once n lim (skip_ws s2) of
        Inl e \<Rightarrow> Inl e
      | Inr (v, s3) \<Rightarrow>
          (case skip_ws s3 of
             [] \<Rightarrow> Inl JSONDecodeError
           | c' # s4 \<Rightarrow>
               if c' = 125 then Inr (JObject (dict (pairs @ [(key, v)])), s4)
               else if c' \<noteq> 44 then Inl JSONDecodeError
               else
                 (case skip_ws s4 of
                    [] \<Rightarrow> Inl JSONDecodeError
                  | c'' # s5 \<Rightarrow>
                      if c'' = 34 then JSONObject_loop n lim (pairs @ [(key, v)]) s5
                      else Inl JSONDecodeError)))"
  using assms by (simp add: skip_ws_simps)

lemma item_truncated:
  assumes "is_pystr k" "unpaired k" "int_str_ok v" "m + m < n"
  shows "JSONObject_loop n lim pairs (take m (item_text k v)) = Inl JSONDecodeError"
proof (cases "m \<le> length (concat (map escape_char k))")
  case True
  from assms(4) obtain n1 where n: "n = Suc n1" by (cases n) auto
  from True have "take m (item_text k v) = take m (concat (map escape_char k))"
    by (simp add: item_text_def)
  with scanstring_truncated[OF assms(1,2) True] show ?thesis
    by (simp add: n)
next
  case False
  let ?e = "concat (map escape_char k)"
  from False obtain p where m: "m = length ?e + Suc p"
    by (metis add_Suc_right less_imp_Suc_add not_le)
  with assms(4) obtain n2 where n: "n = Suc (Suc n2)"
    by (cases n; cases "n - 1") auto
  have tk: "take m (item_text k v) = ?e @ 34 # take p (58 # 32 # int_repr v)"
    by (simp add: item_text_def m)
  have key: "scanstring (?e @ 34 # Y) = Some (k, Y)" for Y
    by (rule scanstring_roundtrip[OF assms(1,2)])
  show ?thesis
  proof (cases p)
    case 0
    with key[of "[]"] show ?thesis by (simp add: tk n skip_ws_simps)
  next
    case (Suc q)
    then have tk2: "take m (item_text k v) = ?e @ 34 # 58 # take q (32 # int_repr v)"
      by (simp add: tk)
    note step = loop_after_key[OF key[of "58 # take q (32 # int_repr v)"]]
    show ?thesis
    proof (cases q)
      case 0
      then show ?thesis unfolding tk2 n step by (simp add: skip_ws_simps)
    next
      case (Suc u)
      then have sk: "skip_ws (take q (32 # int_repr v)) = take u (int_repr v)"
        by (simp add: skip_ws_simps skip_ws_take_int_repr)
      show ?thesis
      proof (cases u)
        case 0
        then show ?thesis unfolding tk2 n step sk by simp
      next
        case u: (Suc u1)
        from scan_once_int_prefix[OF assms(3), of u n2 lim] u
        show ?thesis unfolding tk2 n step sk
          by (auto simp: skip_ws_simps simp del: scan_once.simps)
      qed
    qed
  qed
qed

lemma item_then_comma:
  assumes "is_pystr k" "unpaired k" "int_str_ok v"
  shows "JSONObject_loop (Suc (Suc n)) lim pairs (item_text k v @ 44 # rest) =
     (case skip_ws rest of
        [] \<Rightarrow> Inl JSONDecodeError
      | c # s \<Rightarrow>
          if c = 34 then JSONObject_loop (Suc n) lim (pairs @ [(k, JInt v)]) s
          else Inl JSONDecodeError)"
proof -
  have key: "scanstring (item_text k v @ 44 # rest) = Some (k, 58 # 32 # int_repr v @ 44 # rest)"
    using scanstring_roundtrip[OF assms(1,2)] by (simp add: item_text_def)
  have val: "scan_once (Suc n) lim (int_repr v @ 44 # rest) = Inr (JInt v, 44 # rest)"
    using assms(3) by (intro scan_once_int_repr) (simp_all add: is_digit_def)
  show ?thesis
    unfolding loop_after_key[OF key]
    by (simp add: skip_ws_simps skip_ws_int_repr val
          del: JSONObject_loop.simps scan_once.simps)
qed

lemma item_then_newline:
  assumes "is_pystr k" "unpaired k" "int_str_ok v"
  shows "JSONObject_loop (Suc (Suc n)) lim pairs (item_text k v @ [10]) = Inl JSONDecodeError"
proof -
  have key: "scanstring (item_text k v @ [10]) = Some (k, 58 # 32 # int_repr v @ [10])"
    using scanstring_roundtrip[OF assms(1,2)] by (simp add: item_text_def)
  have val: "scan_once (Suc n) lim (int_repr v @ [10]) = Inr (JInt v, [10])"
    using assms(3) by (intro scan_once_int_repr) (simp_all add: is_digit_def)
  show ?thesis
    unfolding loop_after_key[OF key]
    by (simp add: skip_ws_simps skip_ws_int_repr val
          del: JSONObject_loop.simps scan_once.simps)
qed

lemma JSONObject_loop_truncated:
  "keys_unpaired ((k, v) # items) \<Longrightarrow> values_short ((k, v) # items) \<Longrightarrow>
   m < length (item_text k v @ items_text items @ [10, 125]) \<Longrightarrow> m + m < n \<Longrightarrow>
   JSONObject_loop n lim pairs (take m (item_text k v @ items_text items @ [10, 125]))
   = Inl JSONDecodeError"
proof (induction items arbitrary: k v m n pairs)
  case Nil
  then have k: "is_pystr k" "unpaired k" and v: "int_str_ok v"
    by (simp_all add: keys_unpaired_def values_short_def)
  show ?case
  proof (cases "m \<le> length (item_text k v)")
    case True
    then show ?thesis using item_truncated[OF k v Nil(4)] by simp
  next
    case False
    with Nil(3) have m: "m = Suc (length (item_text k v))" by simp
    with Nil(4) obtain n2 where n: "n = Suc (Suc n2)"
      by (cases n; cases "n - 1") auto
    show ?thesis using item_then_newline[OF k v] by (simp add: m n)
  qed
next
  case (Cons p items)
  obtain k' v' where p: "p = (k', v')" by (cases p)
  from Cons(2,3) have k: "is_pystr k" "unpaired k" and v: "int_str_ok v"
    and ks: "keys_unpaired ((k', v') # items)" and vs: "values_short ((k', v') # items)"
    by (simp_all add: keys_unpaired_def values_short_def p)
  let ?next = "item_text k' v' @ items_text items @ [10, 125]"
  let ?ws = "[10, 32, 32, 32, 32] :: nat list"
  have full: "item_text k v @ items_text (p # items) @ [10, 125]
      = item_text k v @ 44 # ?ws @ 34 # ?next"
    by (simp add: p)
  show ?case
  proof (cases "m \<le> length (item_text k v)")
    case True
    then show ?thesis using item_truncated[OF k v Cons(5)] by simp
  next
    case False
    then obtain w where m: "m = length (item_text k v) + Suc w"
      by (metis add_Suc_right less_imp_Suc_add not_le)
    with Cons(5) obtain n2 where n: "n = Suc (Suc n2)"
      by (cases n; cases "n - 1") auto
    have tk: "take m (item_text k v @ items_text (p # items) @ [10, 125])
      = item_text k v @ 44 # take w (?ws @ 34 # ?next)"
      unfolding full by (simp add: m)
    show ?thesis
    proof (cases "w \<le> 5")
      case True
      then have "take w (?ws @ 34 # ?next) = take w ?ws" by (intro take_prefix_le) simp
      moreover have "skip_ws (take w ?ws) = []"
        by (rule skip_ws_take_ws) (simp add: is_ws_def)
      ultimately show ?thesis
        unfolding tk n item_then_comma[OF k v] by simp
    next
      case False
      define x where "x = w - 6"
      with False have w: "w = Suc (Suc (Suc (Suc (Suc (Suc x)))))" by simp
      have tw: "take w (?ws @ 34 # ?next) = ?ws @ 34 # take x ?next"
        by (simp add: w)
      from Cons(4) m w have x: "x < length ?next"
        unfolding full by simp
      from Cons(5) m w n have fuel: "x + x < Suc n2" by simp
      show ?thesis
        unfolding tk n item_then_comma[OF k v] tw
        using Cons.IH[OF ks vs x fuel]
        by (simp add: skip_ws_simps del: JSONObject_loop.simps)
    qed
  qed
qed

lemma json_loads_truncated:
  assumes "keys_unpaired d" "values_short d" "0 < lim" "m < length (dump_text d)"
  shows "json_loads lim (take m (dump_text d)) = Inl JSONDecodeError"
proof (cases d)
  case Nil
  with assms(4) have "m = 0 \<or> m = 1" by (auto simp: dump_text_def)
  with Nil assms(3) show ?thesis
    by (auto simp: json_loads_def dump_text_def skip_ws_simps)
next
  case (Cons p items)
  obtain k v where p: "p = (k, v)" by (cases p)
  let ?body = "item_text k v @ items_text items @ [10, 125]"
  let ?ws = "[10, 32, 32, 32, 32] :: nat list"
  have dumps: "dump_text d = 123 # ?ws @ 34 # ?body"
    by (simp add: dump_text_def Cons p)
  from assms(4) have len: "length (take m (dump_text d)) = m" by simp
  show ?thesis
  proof (cases m)
    case 0
    then show ?thesis by (simp add: json_loads_def skip_ws_simps)
  next
    case (Suc w)
    then have tk: "take m (dump_text d) = 123 # take w (?ws @ 34 # ?body)"
      unfolding dumps by simp
    have bom: "take 1 (take m (dump_text d)) \<noteq> [65279]"
      unfolding tk by simp
    have "scan_once (Suc (m + m)) lim (123 # take w (?ws @ 34 # ?body)) = Inl JSONDecodeError"
    proof (cases "w \<le> 5")
      case True
      then have "take w (?ws @ 34 # ?body) = take w ?ws" by (intro take_prefix_le) simp
      moreover have "skip_ws (take w ?ws) = []"
        by (rule skip_ws_take_ws) (simp add: is_ws_def)
      ultimately show ?thesis using assms(3) by simp
    next
      case False
      define x where "x = w - 6"
      with False have w: "w = Suc (Suc (Suc (Suc (Suc (Suc x)))))" by simp
      have tw: "take w (?ws @ 34 # ?body) = ?ws @ 34 # take x ?body"
        by (simp add: w)
      from assms(4) Suc w have x: "x < length ?body"
        unfolding dumps by simp
      from Suc w have fuel: "x + x < m + m" by simp
      from assms(1,2) Cons p have "keys_unpaired ((k, v) # items)" "values_short ((k, v) # items)"
        by simp_all
      from JSONObject_loop_truncated[OF this x fuel] assms(3) show ?thesis
        unfolding tw by (simp add: skip_ws_simps del: JSONObject_loop.simps)
    qed
    then show ?thesis
      unfolding json_loads_def len
      using bom by (simp add: tk skip_ws_simps del: scan_once.simps One_nat_def)
  qed
qed

subsection \<open>A dump followed by more text\<close>

text \<open>
  A dump followed by text that is not white space is rejected with
  \<open>JSONDecodeError\<close> (\<open>Extra data\<close>); a line of the log is such text.
\<close>

lemma scan_once_dump_text:
  assumes "0 < lim" and "keys_unpaired d" and "values_short d" and "distinct (map fst d)"
    and "length d < n"
  shows "scan_once (Suc n) lim (dump_text d @ r) = Inr (json_of_stock d, r)"
proof (cases d)
  case Nil
  with assms(1) show ?thesis
    by (simp add: dump_text_def json_of_stock_def skip_ws_simps)
next
  case (Cons p items)
  obtain k v where p: "p = (k, v)" by (cases p)
  have loop: "JSONObject_loop n (lim - 1) []
          (item_text k v @ items_text items @ 10 # 125 # r)
        = Inr (JObject (dict ([] @ (k, JInt v) # map (\<lambda>(k, v). (k, JInt v)) items)), r)"
    using assms(2,3,5) Cons p
    by (intro JSONObject_loop_items) (simp_all add: keys_unpaired_def values_short_def)
  have "distinct (map fst ((k, JInt v) # map (\<lambda>(k, v). (k, JInt v)) items))"
    using assms(4) Cons p by (simp add: comp_def case_prod_beta)
  then have dict: "dict ((k, JInt v) # map (\<lambda>(k, v). (k, JInt v)) items)
      = (k, JInt v) # map (\<lambda>(k, v). (k, JInt v)) items"
    by (rule dict_distinct)
  have dumps: "dump_text d @ r
      = 123 # 10 # 32 # 32 # 32 # 32 # 34 # item_text k v @ items_text items @ 10 # 125 # r"
    by (simp add: dump_text_def Cons p)
  show ?thesis
    unfolding dumps
    using assms(1) loop dict
    by (simp add: skip_ws_simps json_of_stock_def Cons p del: JSONObject_loop.simps)
qed

lemma length_dump_text: "length d < length (dump_text d)"
proof (cases d)
  case Nil
  then show ?thesis by (simp add: dump_text_def)
next
  case (Cons p items)
  obtain k v where p: "p = (k, v)" by (cases p)
  from length_items_text[of items] show ?thesis
    by (simp add: dump_text_def Cons p)
qed

lemma dump_text_first: "\<exists>t. dump_text d = 123 # t"
  by (cases d) (auto simp: dump_text_def)

lemma json_loads_extra_data:
  assumes "0 < lim" and "keys_unpaired d" and "values_short d" and "distinct (map fst d)"
    and "skip_ws extra \<noteq> []"
  shows "json_loads lim (dump_text d @ extra) = Inl JSONDecodeError"
proof -
  obtain t where t: "dump_text d = 123 # t"
    using dump_text_first by blast
  have sk: "skip_ws (dump_text d @ extra) = dump_text d @ extra"
    unfolding t by (simp add: skip_ws_simps)
  have bom: "take 1 (dump_text d @ extra) \<noteq> [65279]"
    unfolding t by simp
  have "length d < length (dump_text d @ extra) + length (dump_text d @ extra)"
    using length_dump_text[of d] by simp
  from scan_once_dump_text[OF assms(1-4) this]
  show ?thesis
    using assms(5) by (simp add: json_loads_def sk bom del: scan_once.simps One_nat_def)
qed

lemma skip_ws_log_line: "skip_ws (log_line asctime levelname message) \<noteq> []"
  by (simp add: skip_ws_def log_line_def str_def is_ws_def)

subsection \<open>A dump that raises\<close>

text \<open>
  When a value has more than 4300 digits, \<open>json.dump\<close> raises \<open>ValueError\<close> and
  what it has written is a proper prefix of the dump of the mapping in which every
  such value is replaced by \<open>0\<close>.
\<close>

lemma take_length_append: "take (length xs + j) (xs @ ys) = xs @ take j ys"
  by simp

lemma int_str_ok_0: "int_str_ok 0"
  by (simp add: short_eval)

lemma iterencode_items_raises:
  "\<not> values_short items \<Longrightarrow>
   \<exists>m. m < length (items_text (map (\<lambda>(k, v). (k, if int_str_ok v then v else 0)) items))
     \<and> iterencode_items False items
       = Inl (ValueError,
              take m (items_text (map (\<lambda>(k, v). (k, if int_str_ok v then v else 0)) items)))"
proof (induction items)
  case Nil
  then show ?case by (simp add: values_short_def)
next
  case (Cons p items)
  obtain k v where p: "p = (k, v)" by (cases p)
  let ?fix = "\<lambda>(k, v). (k, if int_str_ok v then v else (0 :: int))"
  let ?chunks = "44 # 10 # 32 # 32 # 32 # 32 # 34 # concat (map escape_char k) @ [34, 58, 32]"
  show ?case
  proof (cases "int_str_ok v")
    case False
    have t: "items_text (map ?fix (p # items))
        = ?chunks @ int_repr 0 @ items_text (map ?fix items)"
      using False by (simp add: p item_text_def)
    have r: "iterencode_items False (p # items) = Inl (ValueError, ?chunks)"
      using False
      by (simp add: p intstr_def encode_basestring_ascii_def newline_indent_eq)
    obtain c0 ds where "int_repr 0 = c0 # ds" using int_repr_first[of 0] by blast
    then have "length ?chunks < length (items_text (map ?fix (p # items)))"
      unfolding t by simp
    moreover have "take (length ?chunks) (items_text (map ?fix (p # items))) = ?chunks"
      unfolding t by simp
    ultimately show ?thesis using r by (intro exI[of _ "length ?chunks"]) simp
  next
    case True
    with Cons.prems have "\<not> values_short items" by (simp add: values_short_def p)
    from Cons.IH[OF this] obtain m where
      m: "m < length (items_text (map ?fix items))"
        "iterencode_items False items = Inl (ValueError, take m (items_text (map ?fix items)))"
      by blast
    have t: "items_text (map ?fix (p # items))
        = (?chunks @ int_repr v) @ items_text (map ?fix items)"
      using True by (simp add: p item_text_def)
    have r: "iterencode_items False (p # items)
        = Inl (ValueError, (?chunks @ int_repr v) @ take m (items_text (map ?fix items)))"
      using True m(2)
      by (simp add: p intstr_def encode_basestring_ascii_def newline_indent_eq)
    have "length (?chunks @ int_repr v) + m < length (items_text (map ?fix (p # items)))"
      unfolding t using m(1) by simp
    moreover have "take (length (?chunks @ int_repr v) + m) (items_text (map ?fix (p # items)))
        = (?chunks @ int_repr v) @ take m (items_text (map ?fix items))"
      unfolding t by (rule take_length_append)
    ultimately show ?thesis using r
      by (intro exI[of _ "length (?chunks @ int_repr v) + m"]) simp
  qed
qed

lemma json_dump_raises:
  assumes "\<not> values_short d"
  shows "\<exists>m. m < length (dump_text (map (\<lambda>(k, v). (k, if int_str_ok v then v else 0)) d))
     \<and> json_dump d
       = Inl (ValueError,
              take m (dump_text (map (\<lambda>(k, v). (k, if int_str_ok v then v else 0)) d)))"
proof (cases d)
  case Nil
  with assms show ?thesis by (simp add: values_short_def)
next
  case (Cons p items)
  obtain k v where p: "p = (k, v)" by (cases p)
  let ?fix = "\<lambda>(k, v). (k, if int_str_ok v then v else (0 :: int))"
  let ?chunks = "123 # 10 # 32 # 32 # 32 # 32 # 34 # concat (map escape_char k) @ [34, 58, 32]"
  show ?thesis
  proof (cases "int_str_ok v")
    case False
    have t: "dump_text (map ?fix d)
        = ?chunks @ int_repr 0 @ items_text (map ?fix items) @ [10, 125]"
      using False by (simp add: Cons p dump_text_def item_text_def)
    have r: "json_dump d = Inl (ValueError, ?chunks)"
      using False
      by (simp add: Cons p json_dump_def intstr_def encode_basestring_ascii_def
            newline_indent_eq)
    have "length ?chunks < length (dump_text (map ?fix d))"
      unfolding t by simp
    moreover have "take (length ?chunks) (dump_text (map ?fix d)) = ?chunks"
      unfolding t by simp
    ultimately show ?thesis using r by (intro exI[of _ "length ?chunks"]) simp
  next
    case True
    with assms have "\<not> values_short items" by (simp add: values_short_def Cons p)
    from iterencode_items_raises[OF this] obtain m where
      m: "m < length (items_text (map ?fix items))"
        "iterencode_items False items = Inl (ValueError, take m (items_text (map ?fix items)))"
      by blast
    have t: "dump_text (map ?fix d)
        = (?chunks @ int_repr v) @ items_text (map ?fix items) @ [10, 125]"
      using True by (simp add: Cons p dump_text_def item_text_def)
    have r: "json_dump d
        = Inl (ValueError, (?chunks @ int_repr v) @ take m (items_text (map ?fix items)))"
      using True m(2)
      by (simp add: Cons p json_dump_def intstr_def encode_basestring_ascii_def
            newline_indent_eq)
    have "length (?chunks @ int_repr v) + m < length (dump_text (map ?fix d))"
      unfolding t using m(1) by simp
    moreover have "take m (items_text (map ?fix items) @ [10, 125])
        = take m (items_text (map ?fix items))"
      using m(1) by simp
    then have "take (length (?chunks @ int_repr v) + m) (dump_text (map ?fix d))
        = (?chunks @ int_repr v) @ take m (items_text (map ?fix items))"
      unfolding t by (simp only: take_length_append)
    ultimately show ?thesis using r
      by (intro exI[of _ "length (?chunks @ int_repr v) + m"]) simp
  qed
qed

section \<open>Properties of saving and loading\<close>

text \<open>The definitions of the codec, for evaluating it on a concrete text.\<close>

lemmas codec_eval =
  dump_text_def item_text_def escape_char_def hex4_def hex_digit_def
  int_repr_def json_loads_def skip_ws_def is_ws_def is_digit_def
  match_number_def match_integer_def match_frac_def match_exp_def py_int_def nat_of_digits_def
  decode_uXXXX_def hex_value_def backslash_def dict_def str_def Let_def
  max_str_digits_def digits_of.simps


text \<open>
  Two ways in which \<open>save\<close> followed by \<open>load\<close> gives the empty mapping and an
  error record. Saved under the name of the log file, the dump is followed by the
  record that line 70 logs. With a value of more than 4300 digits, \<open>save\<close> raises
  \<open>ValueError\<close> and leaves a dump cut short at that value.
\<close>

lemma save_to_log_then_load:
  assumes "keys_unpaired d" and "values_short d" and "distinct (map fst d)" and "0 < lim"
  shows "\<exists>fs'. save_data asctime fs d log_file = (Inr fs', [(INFO, Saved)])
               \<and> load_data lim fs' log_file = (Inr (JObject []), [(ERROR, Decode_failed)])"
  using json_loads_extra_data[OF assms(4,1,2,3) skip_ws_log_line]
  by (simp add: save_data_def json_dump_text[OF assms(2)] append_log_def load_data_def)

lemma save_raises_then_load:
  assumes "keys_unpaired d" and "\<not> values_short d" and "0 < lim"
  shows "\<exists>fs'. save_data asctime fs d file = (Inl (ValueError, fs'), [])
               \<and> load_data lim fs' file = (Inr (JObject []), [(ERROR, Decode_failed)])"
proof -
  let ?d = "map (\<lambda>(k, v). (k, if int_str_ok v then v else 0)) d"
  from json_dump_raises[OF assms(2)] obtain m where
    m: "m < length (dump_text ?d)" "json_dump d = Inl (ValueError, take m (dump_text ?d))"
    by blast
  have k: "keys_unpaired ?d"
    using assms(1) by (induction d) (auto simp: keys_unpaired_def)
  have v: "values_short ?d"
    by (induction d) (auto simp: values_short_def int_str_ok_0)
  from json_loads_truncated[OF k v assms(3) m(1)] m(2) show ?thesis
    by (simp add: save_data_def load_data_def)
qed




text \<open>
  Claim C5, as stated, fails: a file holding the list \<open>[1, 2]\<close> is valid JSON that is
  not an object; \<open>load\<close> catches only the decoder's error, so it returns the list and
  logs nothing.
\<close>

theorem load_list_counterexample:
  "load_data 1000 (no_files(str ''inventory.json'' \<mapsto> str ''[1, 2]'')) (str ''inventory.json'')
   = (Inr (JArray [JInt 1, JInt 2]), [])
   \<and> JArray [JInt 1, JInt 2] \<noteq> JObject []"
proof -
  have "json_loads 1000 (str ''[1, 2]'') = Inr (JArray [JInt 1, JInt 2])"
    by (simp add: codec_eval)
  then show ?thesis
    by (simp add: load_data_def)
qed

text \<open>
  Claim C5, amended: for every file whose content the decoder rejects with
  \<open>JSONDecodeError\<close>, \<open>load\<close> raises nothing, returns the empty mapping and logs
  one error record. Truncated text of this program is such content: every proper
  prefix of the text that \<open>save\<close> writes for a mapping (keys without a high
  surrogate directly followed by a low surrogate, values of at most 4300 digits) is
  rejected, whenever the interpreter allows \<open>json.load\<close> one nested call. A file
  whose content is valid JSON is returned as decoded, whatever its shape, and nothing
  is logged. Every other exception of the decoder leaves \<open>load\<close> uncaught:
  \<open>RecursionError\<close> for content nested more deeply than the interpreter allows,
  \<open>ValueError\<close> for an integer literal of more than 4300 digits.
\<close>

theorem load_invalid_content:
  assumes "fs file = Some content"
  shows "(json_loads lim content = Inl JSONDecodeError
          \<longrightarrow> load_data lim fs file = (Inr (JObject []), [(ERROR, Decode_failed)]))
       \<and> (keys_unpaired d \<and> values_short d \<and> m < length (dump_text d)
          \<and> content = take m (dump_text d) \<and> 0 < lim
          \<longrightarrow> load_data lim fs file = (Inr (JObject []), [(ERROR, Decode_failed)]))
       \<and> (json_loads lim content = Inr obj \<longrightarrow> load_data lim fs file = (Inr obj, []))
       \<and> (json_loads lim content = Inl e \<and> e \<noteq> JSONDecodeError
          \<longrightarrow> load_data lim fs file = (Inl e, []))"
proof -
  have "json_loads lim content = Inl JSONDecodeError"
    if "keys_unpaired d" "values_short d" "m < length (dump_text d)"
      "content = take m (dump_text d)" "0 < lim"
    using json_loads_truncated[OF that(1,2,5,3)] that(4) by simp
  with assms show ?thesis
    by (cases e) (auto simp: load_data_def)
qed

theorem load_invalid_content_witness:
  "(no_files(str ''inventory.json'' \<mapsto> str ''{apple: 7}''))
     (str ''inventory.json'') = Some (str ''{apple: 7}'')
   \<and> json_loads 1000 (str ''{apple: 7}'') = Inl JSONDecodeError
   \<and> load_data 1000 (no_files(str ''inventory.json'' \<mapsto> str ''{apple: 7}''))
       (str ''inventory.json'') = (Inr (JObject []), [(ERROR, Decode_failed)])
   \<and> (no_files(str ''inventory.json'' \<mapsto> take 15 (dump_text [(str ''apple'', 7)])))
     (str ''inventory.json'') = Some (take 15 (dump_text [(str ''apple'', 7)]))
   \<and> keys_unpaired [(str ''apple'', 7)]
   \<and> values_short [(str ''apple'', 7)]
   \<and> 15 < length (dump_text [(str ''apple'', 7)])
   \<and> (0 :: nat) < 1000
   \<and> load_data 1000 (no_files(str ''inventory.json'' \<mapsto> take 15 (dump_text [(str ''apple'', 7)])))
       (str ''inventory.json'') = (Inr (JObject []), [(ERROR, Decode_failed)])
   \<and> (no_files(str ''inventory.json'' \<mapsto> str ''[]'')) (str ''inventory.json'') = Some (str ''[]'')
   \<and> json_loads 1000 (str ''[]'') = Inr (JArray [])
   \<and> load_data 1000 (no_files(str ''inventory.json'' \<mapsto> str ''[]'')) (str ''inventory.json'')
       = (Inr (JArray []), [])
   \<and> (no_files(str ''inventory.json'' \<mapsto> str ''[[1]]'')) (str ''inventory.json'')
       = Some (str ''[[1]]'')
   \<and> json_loads 1 (str ''[[1]]'') = Inl RecursionError
   \<and> RecursionError \<noteq> JSONDecodeError
   \<and> load_data 1 (no_files(str ''inventory.json'' \<mapsto> str ''[[1]]'')) (str ''inventory.json'')
       = (Inl RecursionError, [])"
proof -
  have a: "json_loads 1000 (str ''{apple: 7}'') = Inl JSONDecodeError"
    by (simp add: codec_eval)
  have b: "json_loads 1000 (str ''[]'') = Inr (JArray [])"
    by (simp add: codec_eval)
  have c: "json_loads 1 (str ''[[1]]'') = Inl RecursionError"
    by (simp add: codec_eval)
  have d: "keys_unpaired [(str ''apple'', 7)]" "values_short [(str ''apple'', 7)]"
    "15 < length (dump_text [(str ''apple'', 7)])"
    by (simp_all add: keys_unpaired_def values_short_def short_eval is_pystr_def
          high_surrogate_def str_def dump_text_def item_text_def escape_char_def int_repr_def)
  show ?thesis
    using a b c d
      load_invalid_content[of "no_files(str ''inventory.json'' \<mapsto> str ''{apple: 7}'')"
        "str ''inventory.json''" "str ''{apple: 7}''" 1000 "[]" 0 JNull JSONDecodeError]
      load_invalid_content[of
        "no_files(str ''inventory.json'' \<mapsto> take 15 (dump_text [(str ''apple'', 7)]))"
        "str ''inventory.json''" "take 15 (dump_text [(str ''apple'', 7)])" 1000
        "[(str ''apple'', 7)]" 15 JNull JSONDecodeError]
      load_invalid_content[of "no_files(str ''inventory.json'' \<mapsto> str ''[]'')"
        "str ''inventory.json''" "str ''[]''" 1000 "[]" 0 "JArray []" JSONDecodeError]
      load_invalid_content[of "no_files(str ''inventory.json'' \<mapsto> str ''[[1]]'')"
        "str ''inventory.json''" "str ''[[1]]''" 1 "[]" 0 JNull RecursionError]
    by simp
qed

text \<open>
  Claim C8: for every name under which no file exists, \<open>load\<close> raises nothing,
  returns the empty mapping and logs one warning.
\<close>

theorem load_missing_file:
  assumes "fs file = None"
  shows "load_data lim fs file = (Inr (JObject []), [(WARNING, File_not_found)])"
  using assms by (simp add: load_data_def)

theorem load_missing_file_witness:
  "no_files (str ''inventory.json'') = None
   \<and> load_data 1000 no_files (str ''inventory.json'')
     = (Inr (JObject []), [(WARNING, File_not_found)])"
  using load_missing_file[of no_files "str ''inventory.json''" 1000]
  by (simp add: no_files_def)

end
